theory Spec2Isabelle
  imports Complex_Main "HOL-Library.AList"
begin

chapter \<open>The program\<close>

section \<open>Data model (types.ts)\<close>

text \<open>
  The nine thought types and the two statuses are closed string unions in the source;
  here they are datatypes. A \<open>Thought\<close> is the interface of types.ts. Its
  \<open>timestamp\<close> is an ISO-8601 string produced by \<open>toISOString()\<close> and read back with
  \<open>new Date(ts).getTime()\<close>; this round trip is the identity on milliseconds, so the
  model stores the milliseconds. The \<open>parameters\<close> of an action request are opaque
  JSON values.
\<close>

datatype ThoughtType =
  Objective | Hypothesis | Assumption | Question | Sub_problem
  | Evidence | Action | Synthesis | Critique

datatype Status = Active | Stale

typedecl json_value

record ActionRequest =
  tool :: string
  parameters :: "(string \<times> json_value) list option"

record Thought =
  id_of :: string
  thought :: string
  thought_type :: ThoughtType
  dependencies :: "string list"
  confidence :: "real option"
  action_request :: "ActionRequest option"
  timestamp :: int
  status :: Status

text \<open>
  \<open>Map<string, Thought>\<close> iterates in insertion order, and \<open>set\<close> on a present key
  replaces the value in place: an association list with \<open>AList.update\<close>.
\<close>

type_synonym thought_map = "(string \<times> Thought) list"

record ReasoningGraph =
  thoughts :: thought_map
  session_id :: string
  created_at :: int

definition map_get :: "thought_map \<Rightarrow> string \<Rightarrow> Thought option" where
  "map_get m k = map_of m k"

definition map_has :: "thought_map \<Rightarrow> string \<Rightarrow> bool" where
  "map_has m k = (map_of m k \<noteq> None)"

definition map_set :: "thought_map \<Rightarrow> string \<Rightarrow> Thought \<Rightarrow> thought_map" where
  "map_set m k v = AList.update k v m"

definition map_keys :: "thought_map \<Rightarrow> string list" where
  "map_keys m = map fst m"

definition map_values :: "thought_map \<Rightarrow> Thought list" where
  "map_values m = map snd m"

definition map_size :: "thought_map \<Rightarrow> nat" where
  "map_size m = length m"

section \<open>Errors\<close>

text \<open>
  Every failure of the server is an \<open>McpError\<close> carrying an error code and a message.
\<close>

datatype ErrorCode = InvalidParams | InvalidRequest | MethodNotFound | InternalError

datatype McpError = McpError ErrorCode string

section \<open>Cascade invalidation (markStale)\<close>

text \<open>
  \<open>markStale\<close> mutates the status of thought objects held by the map and recurses from
  inside a loop over \<open>this.graph.thoughts.entries()\<close>. The loop reads each thought's
  status at the moment its entry is reached, so the model threads the map through the
  loop and looks every key up in the current map. The set of keys never changes while
  the loop runs.
\<close>

definition active_count :: "thought_map \<Rightarrow> nat" where
  "active_count m = length (filter (\<lambda>kt. status (snd kt) = Active) m)"

function markStale :: "thought_map \<Rightarrow> string \<Rightarrow> thought_map \<times> string list"
  and markStale_loop ::
    "string \<Rightarrow> string list \<Rightarrow> thought_map \<times> string list \<Rightarrow> thought_map \<times> string list"
where
  "markStale m thoughtId =
     (case map_get m thoughtId of
        None \<Rightarrow> (m, [])
      | Some t \<Rightarrow>
          if status t = Active
          then markStale_loop thoughtId (map_keys m)
                 (map_set m thoughtId (t\<lparr>status := Stale\<rparr>), [thoughtId])
          else (m, []))"
| "markStale_loop thoughtId [] (m, stale) = (m, stale)"
| "markStale_loop thoughtId (k # ks) (m, stale) =
     (case map_get m k of
        None \<Rightarrow> markStale_loop thoughtId ks (m, stale)
      | Some t \<Rightarrow>
          if thoughtId \<in> set (dependencies t) \<and> status t = Active
          then (case markStale m k of
                  (m', sub) \<Rightarrow> markStale_loop thoughtId ks (m', stale @ sub))
          else markStale_loop thoughtId ks (m, stale))"
  by pat_completeness auto

lemma active_count_update_less:
  "map_of m k = Some t \<Longrightarrow> status t = Active \<Longrightarrow>
   active_count (AList.update k (t\<lparr>status := Stale\<rparr>) m) < active_count m"
  by (induction m) (auto simp: active_count_def)

lemma markStale_dom_active_count:
  "markStale_markStale_loop_dom (Inl (m, thoughtId)) \<Longrightarrow>
     active_count (fst (markStale m thoughtId)) \<le> active_count m"
  "markStale_markStale_loop_dom (Inr (thoughtId', ks, ms)) \<Longrightarrow>
     active_count (fst (markStale_loop thoughtId' ks ms)) \<le> active_count (fst ms)"
proof (induction m thoughtId and thoughtId' ks ms rule: markStale_markStale_loop.pinduct)
  case (1 m thoughtId)
  show ?case
  proof (cases "map_get m thoughtId")
    case None
    with 1(1) show ?thesis by (simp add: markStale.psimps)
  next
    case (Some t)
    show ?thesis
    proof (cases "status t = Active")
      case True
      have "active_count (map_set m thoughtId (t\<lparr>status := Stale\<rparr>)) < active_count m"
        using Some True by (simp add: map_get_def map_set_def active_count_update_less)
      with 1(2)[OF Some True] 1(1) Some True show ?thesis
        by (simp add: markStale.psimps)
    next
      case False
      with 1(1) Some show ?thesis by (simp add: markStale.psimps)
    qed
  qed
next
  case (2 thoughtId m stale)
  then show ?case by (simp add: markStale_loop.psimps)
next
  case (3 thoughtId k ks m stale)
  show ?case
  proof (cases "map_get m k")
    case None
    with 3(1) 3(2) show ?thesis by (simp add: markStale_loop.psimps)
  next
    case (Some t)
    show ?thesis
    proof (cases "thoughtId \<in> set (dependencies t) \<and> status t = Active")
      case True
      obtain m' sub where r: "markStale m k = (m', sub)" by (cases "markStale m k")
      from 3(3)[OF Some True] r have "active_count m' \<le> active_count m" by simp
      moreover from 3(4)[OF Some True r[symmetric]]
      have "active_count (fst (markStale_loop thoughtId ks (m', stale @ sub))) \<le> active_count m'"
        by simp
      ultimately show ?thesis using 3(1) Some True r
        by (simp add: markStale_loop.psimps)
    next
      case False
      with 3(1) 3(5)[OF Some False] Some show ?thesis
        by (auto simp: markStale_loop.psimps)
    qed
  qed
qed

text \<open>
  Every recursive call of \<open>markStale\<close> stales one more thought, and the loop consumes
  its key list: the pair (number of active thoughts, remaining keys) decreases.
\<close>

termination markStale
proof (relation "inv_image (less_than <*lex*> less_than)
    (\<lambda>x. case x of
           Inl (m, thoughtId) \<Rightarrow> (active_count m, 0)
         | Inr (thoughtId, ks, (m, stale)) \<Rightarrow> (active_count m, Suc (length ks)))", goal_cases)
  case 1
  show ?case by (intro wf_inv_image wf_lex_prod wf_less_than)
next
  case (2 m thoughtId t)
  then show ?case
    by (simp add: map_get_def map_set_def active_count_update_less)
next
  case (3 thoughtId k ks m stale)
  then show ?case by simp
next
  case (4 thoughtId k ks m stale t)
  then show ?case by simp
next
  case (5 thoughtId k ks m stale t x y)
  then show ?case
    using markStale_dom_active_count(1)[of m k] by (auto simp: less_Suc_eq_le dest: sym)
next
  case (6 thoughtId k ks m stale t)
  then show ?case by simp
qed

declare markStale.simps [simp del]

section \<open>invalidate_assumption (handleInvalidateAssumption)\<close>

text \<open>
  The handler reads two values from its environment: the id produced by
  \<open>generateId()\<close> (random digits followed by the clock) and the clock for the
  timestamp. Both are arguments of the model. The calls to the persistence layer happen
  after the in-memory update and are outside the model.
\<close>

record InvalidateInput =
  thought_id :: string
  reason :: string

record InvalidateResult =
  invalidated_thoughts :: "string list"
  critique_id :: string

definition critique_text :: "string \<Rightarrow> string \<Rightarrow> string" where
  "critique_text content rsn =
     ''Assumption invalidated: '' @ [CHR 0x22] @ content @ [CHR 0x22] @ ''. Reason: '' @ rsn"

definition handleInvalidateAssumption ::
  "ReasoningGraph \<Rightarrow> InvalidateInput \<Rightarrow> string \<Rightarrow> int \<Rightarrow>
     (McpError + InvalidateResult) \<times> ReasoningGraph"
where
  "handleInvalidateAssumption g input newId now =
     (case map_get (thoughts g) (thought_id input) of
        None \<Rightarrow> (Inl (McpError InvalidParams ''Thought not found''), g)
      | Some t \<Rightarrow>
          if thought_type t \<noteq> Assumption
          then (Inl (McpError InvalidParams ''Thought is not an assumption''), g)
          else
            (case markStale (thoughts g) (thought_id input) of
               (m', invalidated) \<Rightarrow>
                 let critique =
                   \<lparr>id_of = newId,
                    thought = critique_text (thought t) (reason input),
                    thought_type = Critique,
                    dependencies = [thought_id input],
                    confidence = None,
                    action_request = None,
                    timestamp = now,
                    status = Active\<rparr>
                 in (Inr \<lparr>invalidated_thoughts = invalidated, critique_id = id_of critique\<rparr>,
                     g\<lparr>thoughts := map_set m' (id_of critique) critique\<rparr>)))"

section \<open>log_thought: validateDependencies\<close>

text \<open>
  The candidate thought has no id yet, so the cycle check names it
  \<open>'temp_' + Date.now()\<close>: the clock is an argument of the model, and
  \<open>number_to_string\<close> is the decimal rendering that string concatenation applies to it.
\<close>

definition digit_char :: "nat \<Rightarrow> char" where
  "digit_char d = ''0123456789'' ! d"

fun digits_of_nat :: "nat \<Rightarrow> string" where
  "digits_of_nat n =
     (if n < 10 then [digit_char n] else digits_of_nat (n div 10) @ [digit_char (n mod 10)])"

declare digits_of_nat.simps [simp del]

definition number_to_string :: "int \<Rightarrow> string" where
  "number_to_string i =
     (if 0 \<le> i then digits_of_nat (nat i) else CHR ''-'' # digits_of_nat (nat (- i)))"

definition temp_id :: "int \<Rightarrow> string" where
  "temp_id now = ''temp_'' @ number_to_string now"

text \<open>The first loop of \<open>validateDependencies\<close>: the first absent id raises.\<close>

definition dangling_message :: "string \<Rightarrow> string" where
  "dangling_message depId =
     ''Dependency '' @ [CHR 0x22] @ depId @ [CHR 0x22] @ '' does not exist''"

fun dependencies_exist :: "thought_map \<Rightarrow> string list \<Rightarrow> McpError option" where
  "dependencies_exist m [] = None"
| "dependencies_exist m (depId # rest) =
     (if \<not> map_has m depId
      then Some (McpError InvalidParams (dangling_message depId))
      else dependencies_exist m rest)"

text \<open>
  \<open>hasCycle\<close> is a closure over the two mutable sets \<open>visited\<close> and
  \<open>recursiveStack\<close>; the model passes them in and returns them. On a \<open>true\<close> result
  the source returns at once, leaving the stack as it is. \<open>node_deps\<close> is the line that
  picks the edges of a node: the candidate dependencies for the temporary id, the stored
  ones for a node of the graph, none for an unknown id.
\<close>

definition node_deps :: "thought_map \<Rightarrow> string list \<Rightarrow> string \<Rightarrow> string \<Rightarrow> string list" where
  "node_deps m deps tempId nodeId =
     (if nodeId = tempId then deps
      else (case map_get m nodeId of Some t \<Rightarrow> dependencies t | None \<Rightarrow> []))"

definition unvisited :: "thought_map \<Rightarrow> string \<Rightarrow> string set \<Rightarrow> nat" where
  "unvisited m tempId visited = card (insert tempId (set (map_keys m)) - visited)"

function hasCycle ::
    "thought_map \<Rightarrow> string list \<Rightarrow> string \<Rightarrow> string \<Rightarrow> string set \<times> string set \<Rightarrow>
       bool \<times> string set \<times> string set"
  and hasCycle_loop ::
    "thought_map \<Rightarrow> string list \<Rightarrow> string \<Rightarrow> string list \<Rightarrow> string set \<times> string set \<Rightarrow>
       bool \<times> string set \<times> string set"
where
  "hasCycle m deps tempId nodeId (visited, recursiveStack) =
     (if nodeId \<in> recursiveStack then (True, visited, recursiveStack)
      else if nodeId \<in> visited then (False, visited, recursiveStack)
      else
        (case hasCycle_loop m deps tempId (node_deps m deps tempId nodeId)
                (insert nodeId visited, insert nodeId recursiveStack) of
           (found, visited', recursiveStack') \<Rightarrow>
             if found then (True, visited', recursiveStack')
             else (False, visited', recursiveStack' - {nodeId})))"
| "hasCycle_loop m deps tempId [] st = (False, st)"
| "hasCycle_loop m deps tempId (depId # rest) st =
     (case hasCycle m deps tempId depId st of
        (found, st') \<Rightarrow>
          if found then (True, st') else hasCycle_loop m deps tempId rest st')"
  by pat_completeness auto

lemma hasCycle_dom_visited:
  "hasCycle_hasCycle_loop_dom (Inl (m, deps, tempId, nodeId, st)) \<Longrightarrow>
     fst st \<subseteq> fst (snd (hasCycle m deps tempId nodeId st))"
  "hasCycle_hasCycle_loop_dom (Inr (m', deps', tempId', ds, st')) \<Longrightarrow>
     fst st' \<subseteq> fst (snd (hasCycle_loop m' deps' tempId' ds st'))"
proof (induction m deps tempId nodeId st and m' deps' tempId' ds st'
       rule: hasCycle_hasCycle_loop.pinduct)
  case (1 m deps tempId nodeId visited recursiveStack)
  show ?case
  proof (cases "nodeId \<in> recursiveStack \<or> nodeId \<in> visited")
    case True
    with 1(1) show ?thesis by (auto simp: hasCycle.psimps)
  next
    case False
    then have a: "nodeId \<notin> recursiveStack" "nodeId \<notin> visited" by simp_all
    from 1(2)[OF a] 1(1) a show ?thesis
      by (auto simp: hasCycle.psimps split: prod.splits)
  qed
next
  case (2 m deps tempId st)
  then show ?case by (simp add: hasCycle_loop.psimps)
next
  case (3 m deps tempId depId rest st)
  obtain found st1 where r: "hasCycle m deps tempId depId st = (found, st1)"
    by (cases "hasCycle m deps tempId depId st")
  show ?case
  proof (cases found)
    case True
    with 3(1,2) r show ?thesis by (simp add: hasCycle_loop.psimps)
  next
    case False
    with 3(3)[OF r[symmetric]] 3(2) 3(1) r show ?thesis
      by (auto simp: hasCycle_loop.psimps)
  qed
qed

lemma unvisited_mono:
  "visited \<subseteq> visited' \<Longrightarrow> unvisited m tempId visited' \<le> unvisited m tempId visited"
  unfolding unvisited_def by (intro card_mono) auto

lemma unvisited_insert:
  "nodeId \<notin> visited \<Longrightarrow> nodeId \<in> insert tempId (set (map_keys m)) \<Longrightarrow>
     unvisited m tempId (insert nodeId visited) < unvisited m tempId visited"
  unfolding unvisited_def by (intro psubset_card_mono) auto

lemma node_deps_outside:
  "nodeId \<notin> insert tempId (set (map_keys m)) \<Longrightarrow> node_deps m deps tempId nodeId = []"
  by (auto simp: node_deps_def map_get_def map_keys_def split: option.splits
           dest: map_of_SomeD intro: rev_image_eqI)

termination hasCycle
proof (relation "inv_image (less_than <*lex*> less_than)
    (\<lambda>x. case x of
           Inl (m, deps, tempId, nodeId, (visited, recursiveStack)) \<Rightarrow>
             (unvisited m tempId visited, 1)
         | Inr (m, deps, tempId, ds, (visited, recursiveStack)) \<Rightarrow>
             (unvisited m tempId visited, if ds = [] then 0 else 2 + length ds))", goal_cases)
  case 1
  show ?case by (intro wf_inv_image wf_lex_prod wf_less_than)
next
  case (2 m deps tempId nodeId visited recursiveStack)
  show ?case
  proof (cases "nodeId \<in> insert tempId (set (map_keys m))")
    case True
    with 2 unvisited_insert[of nodeId visited tempId m] show ?thesis by simp
  next
    case False
    then have "unvisited m tempId (insert nodeId visited) = unvisited m tempId visited"
      by (auto simp: unvisited_def intro: arg_cong[where f=card])
    with False node_deps_outside[OF False] show ?thesis by simp
  qed
next
  case (3 m deps tempId depId rest st)
  then show ?case by (cases st) simp
next
  case (4 m deps tempId depId rest st x y)
  then have dom: "hasCycle_hasCycle_loop_dom (Inl (m, deps, tempId, depId, st))"
    and r: "hasCycle m deps tempId depId st = (x, y)" by simp_all
  from hasCycle_dom_visited(1)[OF dom] r
  have "fst st \<subseteq> fst y" by simp
  from unvisited_mono[OF this, of m tempId] show ?case
    by (cases st; cases y) (auto simp: less_Suc_eq_le)
qed

declare hasCycle.simps [simp del]

definition validateDependencies :: "thought_map \<Rightarrow> string list \<Rightarrow> int \<Rightarrow> McpError + unit" where
  "validateDependencies m deps now =
     (case dependencies_exist m deps of
        Some e \<Rightarrow> Inl e
      | None \<Rightarrow>
          if fst (hasCycle m deps (temp_id now) (temp_id now) ({}, {}))
          then Inl (McpError InvalidParams ''Circular dependency detected'')
          else Inr ())"

section \<open>log_thought (handleLogThought)\<close>

text \<open>
  The handler validates the dependencies, then builds the thought and stores it under a
  generated id. The clock of the temporary id, the generated id and the clock of the
  timestamp are arguments. A failed validation throws before anything is stored: the
  model returns the error together with the graph as it was. The call to the persistence
  layer that follows the store is outside the model.
\<close>

record LogThoughtInput =
  thought_in :: string
  thought_type_in :: ThoughtType
  dependencies_in :: "string list"
  confidence_in :: "real option"
  action_request_in :: "ActionRequest option"

record LogThoughtResult =
  thought_id_out :: string
  status_out :: string
  total_thoughts :: nat

definition handleLogThought ::
  "ReasoningGraph \<Rightarrow> LogThoughtInput \<Rightarrow> int \<Rightarrow> string \<Rightarrow> int \<Rightarrow>
     (McpError + LogThoughtResult) \<times> ReasoningGraph"
where
  "handleLogThought g input tempNow newId now =
     (case validateDependencies (thoughts g) (dependencies_in input) tempNow of
        Inl e \<Rightarrow> (Inl e, g)
      | Inr _ \<Rightarrow>
          let t =
                \<lparr>id_of = newId,
                 thought = thought_in input,
                 thought_type = thought_type_in input,
                 dependencies = dependencies_in input,
                 confidence = confidence_in input,
                 action_request = action_request_in input,
                 timestamp = now,
                 status = Active\<rparr>;
              g' = g\<lparr>thoughts := map_set (thoughts g) (id_of t) t\<rparr>
          in (Inr \<lparr>thought_id_out = id_of t, status_out = ''logged'',
                   total_thoughts = map_size (thoughts g')\<rparr>, g'))"

section \<open>Rate limiting (TokenBucketRateLimiter, RateLimitManager)\<close>

text \<open>
  JavaScript numbers are reals here, and \<open>Date.now()\<close> is an integer number of
  milliseconds. \<open>checkLimit\<close> reads the clock twice, once inside \<open>refillTokens\<close> and
  once for the window key; both readings are arguments. A division by a refill rate of
  zero is \<open>Infinity\<close> in the source and \<open>0\<close> in HOL, so what is stated about
  \<open>retryAfter\<close> is stated for a refill rate other than zero.
\<close>

record RateLimitConfig =
  cfg_maxTokens :: real
  cfg_refillRate :: real
  cfg_windowMs :: "real option"

record TokenBucketRateLimiter =
  tokens :: real
  lastRefill :: int
  maxTokens :: real
  refillRate :: real
  requestCount :: "(string \<times> nat) list"
  windowMs :: real

definition new_TokenBucketRateLimiter :: "RateLimitConfig \<Rightarrow> int \<Rightarrow> TokenBucketRateLimiter" where
  "new_TokenBucketRateLimiter config now =
     \<lparr>tokens = cfg_maxTokens config,
      lastRefill = now,
      maxTokens = cfg_maxTokens config,
      refillRate = cfg_refillRate config,
      requestCount = [],
      windowMs = (case cfg_windowMs config of
                    None \<Rightarrow> 60000
                  | Some w \<Rightarrow> if w = 0 then 60000 else w)\<rparr>"

definition refillTokens :: "TokenBucketRateLimiter \<Rightarrow> int \<Rightarrow> TokenBucketRateLimiter" where
  "refillTokens b now =
     (let timePassed = (of_int now - of_int (lastRefill b)) / 1000;
          tokensToAdd = timePassed * refillRate b
      in b\<lparr>tokens := min (maxTokens b) (tokens b + tokensToAdd), lastRefill := now\<rparr>)"

text \<open>
  The request counter is keyed by \<open>clientId:windowIndex\<close>. The clean-up splits every key
  at colons, reads the second piece with \<open>parseInt\<close> (leading white space, a sign, a
  \<open>0x\<close> prefix, then the longest run of digits; \<open>NaN\<close>, here \<open>None\<close>, when there is
  none) and deletes the entry when the number lies before the previous window. A
  comparison with \<open>NaN\<close> is false. Characters are 8-bit here, and white space is the
  ASCII white space.
\<close>

fun split_on :: "char \<Rightarrow> string \<Rightarrow> string list" where
  "split_on c [] = [[]]"
| "split_on c (x # xs) =
     (if x = c then [] # split_on c xs
      else (case split_on c xs of
              [] \<Rightarrow> [[x]]
            | w # ws \<Rightarrow> (x # w) # ws))"

definition is_space :: "char \<Rightarrow> bool" where
  "is_space c = (c \<in> set [CHR '' '', CHR 0x09, CHR 0x0A, CHR 0x0B, CHR 0x0C, CHR 0x0D])"

definition digit_value :: "char \<Rightarrow> nat option" where
  "digit_value c =
     (let n = (of_char c :: nat)
      in if 48 \<le> n \<and> n \<le> 57 then Some (n - 48)
         else if 97 \<le> n \<and> n \<le> 122 then Some (n - 87)
         else if 65 \<le> n \<and> n \<le> 90 then Some (n - 55)
         else None)"

definition is_digit :: "nat \<Rightarrow> char \<Rightarrow> bool" where
  "is_digit radix c = (case digit_value c of Some d \<Rightarrow> d < radix | None \<Rightarrow> False)"

definition digits_value :: "nat \<Rightarrow> string \<Rightarrow> int" where
  "digits_value radix ds = foldl (\<lambda>acc c. acc * int radix + int (the (digit_value c))) 0 ds"

definition parseInt :: "string option \<Rightarrow> int option" where
  "parseInt input =
     (case input of
        None \<Rightarrow> None
      | Some s \<Rightarrow>
          let s1 = dropWhile is_space s;
              negative = (s1 \<noteq> [] \<and> hd s1 = CHR ''-'');
              s2 = (if s1 \<noteq> [] \<and> (hd s1 = CHR ''-'' \<or> hd s1 = CHR ''+'') then tl s1 else s1);
              hex = (take 2 s2 = ''0x'' \<or> take 2 s2 = ''0X'');
              radix = (if hex then 16 else 10);
              s3 = (if hex then drop 2 s2 else s2);
              ds = takeWhile (is_digit radix) s3
          in if ds = [] then None
             else Some ((if negative then - 1 else 1) * digits_value radix ds))"

definition second :: "string list \<Rightarrow> string option" where
  "second parts = (case parts of _ # ts # _ \<Rightarrow> Some ts | _ \<Rightarrow> None)"

definition window_expired :: "TokenBucketRateLimiter \<Rightarrow> int \<Rightarrow> string \<Rightarrow> bool" where
  "window_expired b now key =
     (case parseInt (second (split_on CHR '':'' key)) of
        None \<Rightarrow> False
      | Some ts \<Rightarrow> ts < \<lfloor>(of_int now - windowMs b) / windowMs b\<rfloor>)"

definition window_key :: "TokenBucketRateLimiter \<Rightarrow> string \<Rightarrow> int \<Rightarrow> string" where
  "window_key b clientId now = clientId @ '':'' @ number_to_string \<lfloor>of_int now / windowMs b\<rfloor>"

record LimitResult =
  allowed :: bool
  retryAfter :: "int option"
  remaining :: int

definition checkLimit ::
  "TokenBucketRateLimiter \<Rightarrow> string \<Rightarrow> real \<Rightarrow> int \<Rightarrow> int \<Rightarrow>
     LimitResult \<times> TokenBucketRateLimiter"
where
  "checkLimit b0 clientId cost refillNow now =
     (let b1 = refillTokens b0 refillNow;
          windowKey = window_key b1 clientId now;
          b2 = b1\<lparr>requestCount := filter (\<lambda>(key, n). \<not> window_expired b1 now key) (requestCount b1)\<rparr>
      in if cost \<le> tokens b2
         then
           (let b3 = b2\<lparr>tokens := tokens b2 - cost\<rparr>;
                currentCount = (case map_of (requestCount b3) windowKey of
                                  None \<Rightarrow> 0 | Some n \<Rightarrow> n);
                b4 = b3\<lparr>requestCount := AList.update windowKey (currentCount + 1) (requestCount b3)\<rparr>
            in (\<lparr>allowed = True, retryAfter = None, remaining = \<lfloor>tokens b4\<rfloor>\<rparr>, b4))
         else
           (\<lparr>allowed = False,
             retryAfter = Some \<lceil>(cost - tokens b2) / refillRate b2 * 1000\<rceil>,
             remaining = \<lfloor>tokens b2\<rfloor>\<rparr>, b2))"

record BucketStats =
  currentTokens :: int
  stats_maxTokens :: real
  stats_refillRate :: real
  requestsInWindow :: nat

definition getStats ::
  "TokenBucketRateLimiter \<Rightarrow> string \<Rightarrow> int \<Rightarrow> int \<Rightarrow> BucketStats \<times> TokenBucketRateLimiter"
where
  "getStats b0 clientId refillNow now =
     (let b1 = refillTokens b0 refillNow;
          windowKey = window_key b1 clientId now;
          requests = (case map_of (requestCount b1) windowKey of None \<Rightarrow> 0 | Some n \<Rightarrow> n)
      in (\<lparr>currentTokens = \<lfloor>tokens b1\<rfloor>, stats_maxTokens = maxTokens b1,
           stats_refillRate = refillRate b1, requestsInWindow = requests\<rparr>, b1))"

record RateLimitManager =
  limiters :: "(string \<times> TokenBucketRateLimiter) list"
  defaultConfig :: RateLimitConfig

definition new_RateLimitManager :: RateLimitManager where
  "new_RateLimitManager =
     \<lparr>limiters = [],
      defaultConfig = \<lparr>cfg_maxTokens = 100, cfg_refillRate = 10, cfg_windowMs = Some 60000\<rparr>\<rparr>"

definition addLimiter ::
  "RateLimitManager \<Rightarrow> string \<Rightarrow> RateLimitConfig \<Rightarrow> int \<Rightarrow> RateLimitManager" where
  "addLimiter mgr name config now =
     mgr\<lparr>limiters := AList.update name (new_TokenBucketRateLimiter config now) (limiters mgr)\<rparr>"

definition manager_checkLimit ::
  "RateLimitManager \<Rightarrow> string \<Rightarrow> string \<Rightarrow> real \<Rightarrow> int \<Rightarrow> int \<Rightarrow> int \<Rightarrow>
     (LimitResult \<times> string) \<times> RateLimitManager"
where
  "manager_checkLimit mgr limiterName clientId cost createNow refillNow now =
     (let (limiter, mgr1) =
            (case map_of (limiters mgr) limiterName of
               Some l \<Rightarrow> (l, mgr)
             | None \<Rightarrow>
                 (let l = new_TokenBucketRateLimiter (defaultConfig mgr) createNow
                  in (l, mgr\<lparr>limiters := AList.update limiterName l (limiters mgr)\<rparr>)));
          (result, limiter') = checkLimit limiter clientId cost refillNow now
      in ((result, limiterName),
          mgr1\<lparr>limiters := AList.update limiterName limiter' (limiters mgr1)\<rparr>))"

section \<open>query_thoughts (handleQueryThoughts)\<close>

text \<open>
  The input has passed the schema: \<open>query_type\<close>, \<open>limit\<close> and \<open>offset\<close> are present
  (the schema fills in their defaults), the other fields are optional. \<open>toLowerCase\<close> and
  \<open>localeCompare\<close> depend on the Unicode tables and the locale of the platform; the model
  takes them as the record \<open>StringOps\<close>, so what is proved holds for every choice.
\<close>

datatype QueryType = By_type | By_dependency | By_content | By_confidence | Recent

record QueryThoughtsInput =
  query_type_q :: QueryType
  thought_type_q :: "ThoughtType option"
  dependency_of_q :: "string option"
  depends_on_q :: "string option"
  content_search_q :: "string option"
  min_confidence_q :: "real option"
  max_confidence_q :: "real option"
  status_q :: "Status option"
  limit_q :: real
  offset_q :: real

record StringOps =
  toLowerCase :: "string \<Rightarrow> string"
  localeCompare :: "string \<Rightarrow> string \<Rightarrow> real"

fun type_name :: "ThoughtType \<Rightarrow> string" where
  "type_name Objective = ''objective''"
| "type_name Hypothesis = ''hypothesis''"
| "type_name Assumption = ''assumption''"
| "type_name Question = ''question''"
| "type_name Sub_problem = ''sub_problem''"
| "type_name Evidence = ''evidence''"
| "type_name Action = ''action''"
| "type_name Synthesis = ''synthesis''"
| "type_name Critique = ''critique''"

definition string_includes :: "string \<Rightarrow> string \<Rightarrow> bool" where
  "string_includes hay needle =
     list_ex (\<lambda>i. take (length needle) (drop i hay) = needle) [0 ..< Suc (length hay)]"

text \<open>
  The string filters are guarded by the truthiness of the field: an absent field and the
  empty string both skip the filter.
\<close>

definition truthy :: "string option \<Rightarrow> bool" where
  "truthy s = (case s of None \<Rightarrow> False | Some v \<Rightarrow> v \<noteq> [])"

definition filter_thoughts :: "StringOps \<Rightarrow> ReasoningGraph \<Rightarrow> QueryThoughtsInput \<Rightarrow> Thought list" where
  "filter_thoughts ops g input =
     (let ts0 = map_values (thoughts g);
          ts1 = (case thought_type_q input of
                   None \<Rightarrow> ts0
                 | Some ty \<Rightarrow> filter (\<lambda>t. thought_type t = ty) ts0);
          ts2 = (case status_q input of
                   None \<Rightarrow> ts1
                 | Some st \<Rightarrow> filter (\<lambda>t. status t = st) ts1);
          ts3 = (if truthy (content_search_q input)
                 then (let searchTerm = toLowerCase ops (the (content_search_q input))
                       in filter (\<lambda>t. string_includes (toLowerCase ops (thought t)) searchTerm) ts2)
                 else ts2);
          ts4 = (case min_confidence_q input of
                   None \<Rightarrow> ts3
                 | Some lo \<Rightarrow>
                     filter (\<lambda>t. case confidence t of None \<Rightarrow> False | Some c \<Rightarrow> lo \<le> c) ts3);
          ts5 = (case max_confidence_q input of
                   None \<Rightarrow> ts4
                 | Some hi \<Rightarrow>
                     filter (\<lambda>t. case confidence t of None \<Rightarrow> False | Some c \<Rightarrow> c \<le> hi) ts4);
          ts6 = (if truthy (dependency_of_q input)
                 then (case map_get (thoughts g) (the (dependency_of_q input)) of
                         Some targetThought \<Rightarrow>
                           filter (\<lambda>t. id_of t \<in> set (dependencies targetThought)) ts5
                       | None \<Rightarrow> [])
                 else ts5);
          ts7 = (if truthy (depends_on_q input)
                 then filter (\<lambda>t. the (depends_on_q input) \<in> set (dependencies t)) ts6
                 else ts6)
      in ts7)"

text \<open>
  \<open>Array.prototype.sort\<close> is stable; for a comparator that is a consistent order its
  result is the one insertion sort computes. A comparator result at most 0 keeps the
  earlier element first.
\<close>

fun insert_by :: "('a \<Rightarrow> 'a \<Rightarrow> real) \<Rightarrow> 'a \<Rightarrow> 'a list \<Rightarrow> 'a list" where
  "insert_by cmp x [] = [x]"
| "insert_by cmp x (y # ys) = (if cmp x y \<le> 0 then x # y # ys else y # insert_by cmp x ys)"

definition js_sort :: "('a \<Rightarrow> 'a \<Rightarrow> real) \<Rightarrow> 'a list \<Rightarrow> 'a list" where
  "js_sort cmp xs = foldr (insert_by cmp) xs []"

definition confidence_or_zero :: "Thought \<Rightarrow> real" where
  "confidence_or_zero t = (case confidence t of None \<Rightarrow> 0 | Some c \<Rightarrow> c)"

fun comparator :: "StringOps \<Rightarrow> QueryType \<Rightarrow> Thought \<Rightarrow> Thought \<Rightarrow> real" where
  "comparator ops Recent a b = of_int (timestamp b) - of_int (timestamp a)"
| "comparator ops By_confidence a b = confidence_or_zero b - confidence_or_zero a"
| "comparator ops By_type a b =
     localeCompare ops (type_name (thought_type a)) (type_name (thought_type b))"
| "comparator ops By_content a b = localeCompare ops (thought a) (thought b)"
| "comparator ops By_dependency a b =
     real (length (dependencies b)) - real (length (dependencies a))"

definition sort_thoughts :: "StringOps \<Rightarrow> QueryThoughtsInput \<Rightarrow> Thought list \<Rightarrow> Thought list" where
  "sort_thoughts ops input ts = js_sort (comparator ops (query_type_q input)) ts"

text \<open>
  \<open>Array.prototype.slice\<close> truncates its arguments towards zero, counts a negative index
  from the end and clamps both ends to the length.
\<close>

definition to_integer :: "real \<Rightarrow> int" where
  "to_integer x = (if x < 0 then \<lceil>x\<rceil> else \<lfloor>x\<rfloor>)"

definition relative_index :: "nat \<Rightarrow> real \<Rightarrow> nat" where
  "relative_index len x =
     (let k = to_integer x
      in if k < 0 then nat (max (int len + k) 0) else nat (min k (int len)))"

definition slice :: "'a list \<Rightarrow> real \<Rightarrow> real \<Rightarrow> 'a list" where
  "slice xs start stop =
     (let k = relative_index (length xs) start;
          final = relative_index (length xs) stop
      in take (final - k) (drop k xs))"

record AugmentedThought = Thought +
  dependencies_count :: nat
  dependent_thoughts :: "(string \<times> ThoughtType) list"

definition augment :: "ReasoningGraph \<Rightarrow> Thought \<Rightarrow> AugmentedThought" where
  "augment g t =
     Thought.extend t
       (AugmentedThought.fields
          (length (dependencies t))
          (map (\<lambda>other. (id_of other, thought_type other))
               (filter (\<lambda>other. id_of t \<in> set (dependencies other)) (map_values (thoughts g)))))"

record QueryResult =
  query :: QueryThoughtsInput
  total_results :: nat
  returned_count :: nat
  offset_out :: real
  limit_out :: real
  thoughts_out :: "AugmentedThought list"

definition handleQueryThoughts ::
  "StringOps \<Rightarrow> ReasoningGraph \<Rightarrow> QueryThoughtsInput \<Rightarrow> QueryResult" where
  "handleQueryThoughts ops g input =
     (let ts = sort_thoughts ops input (filter_thoughts ops g input);
          total = length ts;
          paginatedThoughts = slice ts (offset_q input) (offset_q input + limit_q input)
      in \<lparr>query = input,
          total_results = total,
          returned_count = length paginatedThoughts,
          offset_out = offset_q input,
          limit_out = limit_q input,
          thoughts_out = map (augment g) paginatedThoughts\<rparr>)"

chapter \<open>Properties\<close>

section \<open>Sequences of operations\<close>

text \<open>
  The two operations that change the graph, with the values they read from the
  environment; the other operations only read it. \<open>apply_op\<close> keeps the graph an
  operation leaves behind, whether it succeeded or threw. \<open>generateId()\<close> concatenates
  random digits and the clock; the model takes its result as given, and \<open>ids_fresh\<close>
  says that along a run every generated id is new to the graph it is stored into.
\<close>

datatype Operation =
  LogThought LogThoughtInput int string int
  | InvalidateAssumption InvalidateInput string int

fun apply_op :: "ReasoningGraph \<Rightarrow> Operation \<Rightarrow> ReasoningGraph" where
  "apply_op g (LogThought input tempNow newId now) =
     snd (handleLogThought g input tempNow newId now)"
| "apply_op g (InvalidateAssumption input newId now) =
     snd (handleInvalidateAssumption g input newId now)"

fun generated_id :: "Operation \<Rightarrow> string" where
  "generated_id (LogThought input tempNow newId now) = newId"
| "generated_id (InvalidateAssumption input newId now) = newId"

fun ids_fresh :: "ReasoningGraph \<Rightarrow> Operation list \<Rightarrow> bool" where
  "ids_fresh g [] = True"
| "ids_fresh g (op # ops) =
     (generated_id op \<notin> set (map_keys (thoughts g)) \<and> ids_fresh (apply_op g op) ops)"

definition run :: "ReasoningGraph \<Rightarrow> Operation list \<Rightarrow> ReasoningGraph" where
  "run g ops = foldl apply_op g ops"

definition empty_graph :: "string \<Rightarrow> int \<Rightarrow> ReasoningGraph" where
  "empty_graph sid c = \<lparr>thoughts = [], session_id = sid, created_at = c\<rparr>"

section \<open>Vocabulary of the properties\<close>

subsection \<open>What a cascade reaches\<close>

text \<open>
  \<open>is_active\<close> and \<open>depends_on\<close> read the status and the dependency list of a stored
  thought. \<open>stale_upd S\<close> is a lookup function after the thoughts of \<open>S\<close> have been
  staled. \<open>cascade m a\<close> holds for \<open>a\<close> and for every thought reached from \<open>a\<close>
  by following reverse-dependency edges (from a thought to a thought that lists it among
  its dependencies) into thoughts that are active in \<open>m\<close>. \<open>no_active_dependent m x\<close>
  says that no active thought of \<open>m\<close> lists \<open>x\<close>.
\<close>

definition is_active :: "thought_map \<Rightarrow> string \<Rightarrow> bool" where
  "is_active m k = (case map_get m k of Some t \<Rightarrow> status t = Active | None \<Rightarrow> False)"

definition stale_upd :: "string set \<Rightarrow> (string \<rightharpoonup> Thought) \<Rightarrow> (string \<rightharpoonup> Thought)" where
  "stale_upd S f = (\<lambda>k. if k \<in> S then map_option (\<lambda>t. t\<lparr>status := Stale\<rparr>) (f k) else f k)"

definition depends_on :: "thought_map \<Rightarrow> string \<Rightarrow> string \<Rightarrow> bool" where
  "depends_on m y x = (case map_get m y of Some t \<Rightarrow> x \<in> set (dependencies t) | None \<Rightarrow> False)"

inductive cascade :: "thought_map \<Rightarrow> string \<Rightarrow> string \<Rightarrow> bool" for m a where
  root: "cascade m a a"
| dependent: "cascade m a x \<Longrightarrow> map_get m y = Some t \<Longrightarrow> x \<in> set (dependencies t) \<Longrightarrow>
     status t = Active \<Longrightarrow> cascade m a y"

definition no_active_dependent :: "thought_map \<Rightarrow> string \<Rightarrow> bool" where
  "no_active_dependent m x = (\<forall>y. depends_on m y x \<longrightarrow> \<not> is_active m y)"

subsection \<open>Cycles seen from a candidate node\<close>

text \<open>
  \<open>ext_edges\<close> is the dependency relation of the graph extended with the candidate
  node. A candidate closes a cycle when some node reachable from it lies on a cycle.
  \<open>explored E B\<close> is the invariant of the fully explored nodes (visited and no longer
  on the stack): closed under edges and free of cycles.
\<close>

definition ext_edges :: "thought_map \<Rightarrow> string list \<Rightarrow> string \<Rightarrow> (string \<times> string) set" where
  "ext_edges m deps tempId = {(x, d). d \<in> set (node_deps m deps tempId x)}"

definition closes_cycle :: "thought_map \<Rightarrow> string list \<Rightarrow> string \<Rightarrow> bool" where
  "closes_cycle m deps tempId =
     (\<exists>x. (tempId, x) \<in> (ext_edges m deps tempId)\<^sup>* \<and> (x, x) \<in> (ext_edges m deps tempId)\<^sup>+)"

definition explored :: "(string \<times> string) set \<Rightarrow> string set \<Rightarrow> bool" where
  "explored E B = ((\<forall>x\<in>B. \<forall>d. (x, d) \<in> E \<longrightarrow> d \<in> B) \<and> (\<forall>x\<in>B. (x, x) \<notin> E\<^sup>+))"

subsection \<open>Dependencies point backwards in insertion order\<close>

text \<open>
  \<open>dep_rel\<close> relates a thought to each of its dependencies. \<open>grounded\<close> is the
  invariant behind acyclicity: every dependency is a key of the map that was inserted
  before the thought that names it.
\<close>

definition dep_rel :: "thought_map \<Rightarrow> (string \<times> string) set" where
  "dep_rel m = {(y, x). depends_on m y x}"

definition pos :: "thought_map \<Rightarrow> string \<Rightarrow> nat" where
  "pos m x = length (takeWhile (\<lambda>k. k \<noteq> x) (map_keys m))"

definition grounded :: "thought_map \<Rightarrow> bool" where
  "grounded m = (\<forall>y x. depends_on m y x \<longrightarrow> x \<in> set (map_keys m) \<and> pos m x < pos m y)"

subsection \<open>The critique of an invalidation\<close>

text \<open>
  The critique stored by an invalidation depends on one thought only, the invalidated
  assumption, which is stale from then on. \<open>shielded m cid\<close> records this.
\<close>

definition shielded :: "thought_map \<Rightarrow> string \<Rightarrow> bool" where
  "shielded m cid =
     (\<exists>c a ta. map_get m cid = Some c \<and> thought_type c = Critique \<and> status c = Active \<and>
        dependencies c = [a] \<and> map_get m a = Some ta \<and> status ta = Stale)"

subsection \<open>Refill and consecutive calls\<close>

text \<open>
  \<open>refilled\<close> is the refill as the specification words it. \<open>consecutive_calls\<close> makes
  one call of cost 1 per client id of a list, all at the same clock reading, and collects
  the \<open>allowed\<close> flags.
\<close>

definition elapsedSeconds :: "TokenBucketRateLimiter \<Rightarrow> int \<Rightarrow> real" where
  "elapsedSeconds b now = (of_int now - of_int (lastRefill b)) / 1000"

definition refilled :: "TokenBucketRateLimiter \<Rightarrow> int \<Rightarrow> real" where
  "refilled b now = min (maxTokens b) (tokens b + elapsedSeconds b now * refillRate b)"


section \<open>Concrete inputs\<close>

text \<open>Small graphs used to run the model on concrete inputs.\<close>

definition ex_thought :: "string \<Rightarrow> ThoughtType \<Rightarrow> string list \<Rightarrow> Status \<Rightarrow> Thought" where
  "ex_thought i ty ds st =
     \<lparr>id_of = i, thought = i, thought_type = ty, dependencies = ds, confidence = None,
      action_request = None, timestamp = 0, status = st\<rparr>"

definition ex_graph :: "Thought list \<Rightarrow> ReasoningGraph" where
  "ex_graph ts = \<lparr>thoughts = map (\<lambda>t. (id_of t, t)) ts, session_id = ''s'', created_at = 0\<rparr>"

definition scenario_A :: ReasoningGraph where
  "scenario_A = ex_graph
     [ex_thought ''O'' Objective [] Active,
      ex_thought ''H'' Hypothesis [''O''] Active,
      ex_thought ''A'' Assumption [''H''] Active,
      ex_thought ''S'' Sub_problem [''A''] Active]"

definition stale_assumption_graph :: ReasoningGraph where
  "stale_assumption_graph = ex_graph [ex_thought ''A'' Assumption [] Stale]"

definition cyclic_graph :: ReasoningGraph where
  "cyclic_graph = ex_graph [ex_thought ''A'' Hypothesis [''B''] Active,
                            ex_thought ''B'' Hypothesis [''A''] Active]"

definition ex_input :: "ThoughtType \<Rightarrow> string list \<Rightarrow> LogThoughtInput" where
  "ex_input ty ds =
     \<lparr>thought_in = ''new'', thought_type_in = ty, dependencies_in = ds,
      confidence_in = None, action_request_in = None\<rparr>"

definition log_op :: "string \<Rightarrow> ThoughtType \<Rightarrow> string list \<Rightarrow> Operation" where
  "log_op newId ty ds = LogThought ((ex_input ty ds)\<lparr>thought_in := newId\<rparr>) 0 newId 0"

definition scenario_ops :: "Operation list" where
  "scenario_ops =
     [log_op ''O'' Objective [],
      log_op ''H'' Hypothesis [''O''],
      log_op ''A'' Assumption [''H''],
      log_op ''S'' Sub_problem [''A''],
      InvalidateAssumption \<lparr>thought_id = ''A'', reason = ''R''\<rparr> ''C'' 0]"

definition after_invalidation :: ReasoningGraph where
  "after_invalidation = run (empty_graph ''s'' 0) scenario_ops"

definition later_ops :: "Operation list" where
  "later_ops =
     [log_op ''E'' Evidence [''A''],
      InvalidateAssumption \<lparr>thought_id = ''A'', reason = ''again''\<rparr> ''D'' 0,
      InvalidateAssumption \<lparr>thought_id = ''S'', reason = ''no''\<rparr> ''F'' 0]"

definition before_invalidation :: ReasoningGraph where
  "before_invalidation = run (empty_graph ''s'' 0) (butlast scenario_ops)"

definition logged_critique_ops :: "Operation list" where
  "logged_critique_ops =
     [log_op ''A'' Assumption [],
      log_op ''K'' Critique [''A''],
      InvalidateAssumption \<lparr>thought_id = ''A'', reason = ''R''\<rparr> ''C'' 0]"

definition ex_bucket :: TokenBucketRateLimiter where
  "ex_bucket = new_TokenBucketRateLimiter
     \<lparr>cfg_maxTokens = 3, cfg_refillRate = 2, cfg_windowMs = None\<rparr> 1000"

text \<open>String operations for running the model on concrete inputs.\<close>

definition ascii_lower :: "char \<Rightarrow> char" where
  "ascii_lower c =
     (if 65 \<le> (of_char c :: nat) \<and> (of_char c :: nat) \<le> 90
      then char_of ((of_char c :: nat) + 32) else c)"

fun compare_codes :: "string \<Rightarrow> string \<Rightarrow> real" where
  "compare_codes [] [] = 0"
| "compare_codes [] (y # ys) = - 1"
| "compare_codes (x # xs) [] = 1"
| "compare_codes (x # xs) (y # ys) =
     (if x = y then compare_codes xs ys
      else if (of_char x :: nat) < of_char y then - 1 else 1)"

definition ascii_ops :: StringOps where
  "ascii_ops = \<lparr>toLowerCase = map ascii_lower, localeCompare = compare_codes\<rparr>"

definition default_query :: QueryThoughtsInput where
  "default_query =
     \<lparr>query_type_q = Recent, thought_type_q = None, dependency_of_q = None,
      depends_on_q = None, content_search_q = None, min_confidence_q = None,
      max_confidence_q = None, status_q = None, limit_q = 20, offset_q = 0\<rparr>"


chapter \<open>Proofs\<close>

section \<open>The cascade is the closure\<close>

subsection \<open>Shape of the result of markStale\<close>

lemma stale_upd_empty [simp]: "stale_upd {} f = f"
  by (simp add: stale_upd_def)

lemma stale_upd_twice: "stale_upd T (stale_upd S f) = stale_upd (S \<union> T) f"
  by (auto simp: stale_upd_def fun_eq_iff option.map_comp comp_def)

lemma map_of_update_stale:
  "map_of m k = Some t \<Longrightarrow>
   map_of (AList.update k (t\<lparr>status := Stale\<rparr>) m) = stale_upd {k} (map_of m)"
  by (auto simp: update_conv' stale_upd_def fun_eq_iff)

lemma keys_update_present:
  "map_of m k = Some t \<Longrightarrow> map fst (AList.update k v m) = map fst m"
  by (induction m) (auto split: if_splits)

lemma is_active_stale_upd:
  "map_of m' = stale_upd S (map_of m) \<Longrightarrow> is_active m' k \<longleftrightarrow> is_active m k \<and> k \<notin> S"
  by (auto simp: is_active_def map_get_def stale_upd_def split: option.splits)

lemma markStale_shape:
  "markStale m thoughtId = (m', out) \<Longrightarrow>
     map_of m' = stale_upd (set out) (map_of m) \<and> map_keys m' = map_keys m \<and>
     distinct out \<and> (\<forall>k\<in>set out. is_active m k) \<and>
     out = (if is_active m thoughtId then thoughtId # tl out else [])"
  "markStale_loop thoughtId' ks ms = (m', out) \<Longrightarrow>
     \<exists>new. out = snd ms @ new \<and>
       map_of m' = stale_upd (set new) (map_of (fst ms)) \<and> map_keys m' = map_keys (fst ms) \<and>
       distinct new \<and> (\<forall>k\<in>set new. is_active (fst ms) k)"
proof (induction m thoughtId and thoughtId' ks ms arbitrary: m' out and m' out
       rule: markStale_markStale_loop.induct)
  case (1 m thoughtId)
  show ?case
  proof (cases "map_get m thoughtId")
    case None
    with 1(2) show ?thesis by (simp add: markStale.simps is_active_def)
  next
    case (Some t)
    show ?thesis
    proof (cases "status t = Active")
      case False
      with 1(2) Some show ?thesis by (simp add: markStale.simps is_active_def)
    next
      case True
      let ?m1 = "map_set m thoughtId (t\<lparr>status := Stale\<rparr>)"
      from 1(2) Some True
      have r: "markStale_loop thoughtId (map_keys m) (?m1, [thoughtId]) = (m', out)"
        by (simp add: markStale.simps)
      from 1(1)[OF Some True r] obtain new where
        new: "out = [thoughtId] @ new" "map_of m' = stale_upd (set new) (map_of ?m1)"
          "map_keys m' = map_keys ?m1" "distinct new" "\<forall>k\<in>set new. is_active ?m1 k"
        by auto
      have m1: "map_of ?m1 = stale_upd {thoughtId} (map_of m)"
        using Some by (simp add: map_set_def map_get_def map_of_update_stale)
      have k1: "map_keys ?m1 = map_keys m"
        using Some by (simp add: map_set_def map_get_def map_keys_def keys_update_present)
      have act: "is_active m thoughtId" using Some True by (simp add: is_active_def)
      have a1: "\<And>k. is_active ?m1 k \<longleftrightarrow> is_active m k \<and> k \<noteq> thoughtId"
        using is_active_stale_upd[OF m1] by simp
      show ?thesis using new m1 k1 act a1
        by (auto simp: stale_upd_twice)
    qed
  qed
next
  case (2 thoughtId m stale)
  then show ?case by simp
next
  case (3 thoughtId k ks m stale)
  show ?case
  proof (cases "map_get m k")
    case None
    with 3(1)[OF None] 3(5) show ?thesis by simp
  next
    case (Some t)
    show ?thesis
    proof (cases "thoughtId \<in> set (dependencies t) \<and> status t = Active")
      case False
      with 3(4)[OF Some False] 3(5) Some show ?thesis by auto
    next
      case True
      obtain m1 sub where r: "markStale m k = (m1, sub)" by (cases "markStale m k")
      from 3(2)[OF Some True r] have
        sub: "map_of m1 = stale_upd (set sub) (map_of m)" "map_keys m1 = map_keys m"
          "distinct sub" "\<forall>k\<in>set sub. is_active m k"
        by auto
      from 3(5) Some True r
      have r2: "markStale_loop thoughtId ks (m1, stale @ sub) = (m', out)" by simp
      from 3(3)[OF Some True r[symmetric] r2] obtain new where
        new: "out = (stale @ sub) @ new" "map_of m' = stale_upd (set new) (map_of m1)"
          "map_keys m' = map_keys m1" "distinct new" "\<forall>k\<in>set new. is_active m1 k"
        by auto
      have a1: "\<And>j. is_active m1 j \<longleftrightarrow> is_active m j \<and> j \<notin> set sub"
        using is_active_stale_upd[OF sub(1)] by simp
      have "out = stale @ (sub @ new)" using new(1) by simp
      moreover have "map_of m' = stale_upd (set (sub @ new)) (map_of m)"
        using new(2) sub(1) by (simp add: stale_upd_twice)
      moreover have "distinct (sub @ new)" using sub(3) new(4,5) a1 by auto
      moreover have "\<forall>j\<in>set (sub @ new). is_active m j" using sub(4) new(5) a1 by auto
      ultimately show ?thesis using new(3) sub(2) by (intro exI[of _ "sub @ new"]) simp
    qed
  qed
qed

subsection \<open>Every staled thought is reached\<close>

lemma cascade_step: "cascade m a x \<Longrightarrow> depends_on m y x \<Longrightarrow> is_active m y \<Longrightarrow> cascade m a y"
  by (auto simp: depends_on_def is_active_def split: option.splits intro: cascade.dependent)

lemma cascade_trans: "cascade m x y \<Longrightarrow> cascade m a x \<Longrightarrow> cascade m a y"
  by (induction rule: cascade.induct) (auto intro: cascade.dependent)

lemma depends_on_stale_upd:
  "map_of m' = stale_upd S (map_of m) \<Longrightarrow> depends_on m' y x \<longleftrightarrow> depends_on m y x"
  by (auto simp: depends_on_def map_get_def stale_upd_def split: option.splits)

lemma cascade_mono:
  assumes "map_of m' = stale_upd S (map_of m)" and "cascade m' a k"
  shows "cascade m a k"
  using assms(2)
proof (induction rule: cascade.induct)
  case root
  show ?case by (rule cascade.root)
next
  case (dependent x y t)
  have "depends_on m' y x" "is_active m' y"
    using dependent by (simp_all add: depends_on_def is_active_def)
  then have "depends_on m y x" "is_active m y"
    using depends_on_stale_upd[OF assms(1)] is_active_stale_upd[OF assms(1)] by auto
  with dependent.IH show ?case by (rule cascade_step)
qed

lemma markStale_sound:
  "markStale m thoughtId = (m', out) \<Longrightarrow> \<forall>k\<in>set out. cascade m thoughtId k"
  "markStale_loop thoughtId' ks ms = (m', out) \<Longrightarrow>
     \<forall>k\<in>set out. k \<in> set (snd ms) \<or> cascade (fst ms) thoughtId' k"
proof (induction m thoughtId and thoughtId' ks ms arbitrary: m' out and m' out
       rule: markStale_markStale_loop.induct)
  case (1 m thoughtId)
  show ?case
  proof (cases "map_get m thoughtId")
    case None
    with 1(2) show ?thesis by (simp add: markStale.simps)
  next
    case (Some t)
    show ?thesis
    proof (cases "status t = Active")
      case False
      with 1(2) Some show ?thesis by (simp add: markStale.simps)
    next
      case True
      let ?m1 = "map_set m thoughtId (t\<lparr>status := Stale\<rparr>)"
      from 1(2) Some True
      have r: "markStale_loop thoughtId (map_keys m) (?m1, [thoughtId]) = (m', out)"
        by (simp add: markStale.simps)
      have m1: "map_of ?m1 = stale_upd {thoughtId} (map_of m)"
        using Some by (simp add: map_set_def map_get_def map_of_update_stale)
      from 1(1)[OF Some True r]
      have "\<forall>k\<in>set out. k = thoughtId \<or> cascade ?m1 thoughtId k" by simp
      then show ?thesis using cascade_mono[OF m1] by (auto intro: cascade.root)
    qed
  qed
next
  case (2 thoughtId m stale)
  then show ?case by simp
next
  case (3 thoughtId k ks m stale)
  show ?case
  proof (cases "map_get m k")
    case None
    with 3(1)[OF None] 3(5) show ?thesis by simp
  next
    case (Some t)
    show ?thesis
    proof (cases "thoughtId \<in> set (dependencies t) \<and> status t = Active")
      case False
      with 3(4)[OF Some False] 3(5) Some show ?thesis by auto
    next
      case True
      obtain m1 sub where r: "markStale m k = (m1, sub)" by (cases "markStale m k")
      from 3(5) Some True r
      have r2: "markStale_loop thoughtId ks (m1, stale @ sub) = (m', out)" by simp
      have m1: "map_of m1 = stale_upd (set sub) (map_of m)"
        using markStale_shape(1)[OF r] by simp
      have ck: "cascade m thoughtId k"
        using Some True by (auto intro: cascade.dependent[OF cascade.root])
      have s: "\<forall>j\<in>set sub. cascade m thoughtId j"
        using 3(2)[OF Some True r] cascade_trans[OF _ ck] by blast
      have "\<forall>j\<in>set out. j \<in> set (stale @ sub) \<or> cascade m1 thoughtId j"
        using 3(3)[OF Some True r[symmetric] r2] by simp
      then show ?thesis using s cascade_mono[OF m1] by auto
    qed
  qed
qed

subsection \<open>Every reached thought is staled\<close>

lemma no_active_dependent_mono:
  "map_of m' = stale_upd S (map_of m) \<Longrightarrow> no_active_dependent m x \<Longrightarrow> no_active_dependent m' x"
  by (simp add: no_active_dependent_def depends_on_stale_upd is_active_stale_upd)

lemma depends_on_key: "depends_on m y x \<Longrightarrow> y \<in> set (map_keys m)"
  by (auto simp: depends_on_def map_get_def map_keys_def split: option.splits
           dest: map_of_SomeD intro: rev_image_eqI)

lemma markStale_closed:
  "markStale m thoughtId = (m', out) \<Longrightarrow> \<forall>x\<in>set out. no_active_dependent m' x"
  "markStale_loop thoughtId' ks ms = (m', out) \<Longrightarrow>
     (\<forall>x\<in>set out. x \<in> set (snd ms) \<or> no_active_dependent m' x) \<and>
     (\<forall>k\<in>set ks. depends_on m' k thoughtId' \<longrightarrow> \<not> is_active m' k)"
proof (induction m thoughtId and thoughtId' ks ms arbitrary: m' out and m' out
       rule: markStale_markStale_loop.induct)
  case (1 m thoughtId)
  show ?case
  proof (cases "map_get m thoughtId")
    case None
    with 1(2) show ?thesis by (simp add: markStale.simps)
  next
    case (Some t)
    show ?thesis
    proof (cases "status t = Active")
      case False
      with 1(2) Some show ?thesis by (simp add: markStale.simps)
    next
      case True
      let ?m1 = "map_set m thoughtId (t\<lparr>status := Stale\<rparr>)"
      from 1(2) Some True
      have r: "markStale_loop thoughtId (map_keys m) (?m1, [thoughtId]) = (m', out)"
        by (simp add: markStale.simps)
      have keys: "map_keys m' = map_keys m"
        using markStale_shape(1)[OF 1(2)] by simp
      from 1(1)[OF Some True r] have
        a: "\<forall>x\<in>set out. x = thoughtId \<or> no_active_dependent m' x" and
        b: "\<forall>k\<in>set (map_keys m). depends_on m' k thoughtId \<longrightarrow> \<not> is_active m' k"
        by simp_all
      have "no_active_dependent m' thoughtId"
        unfolding no_active_dependent_def using b depends_on_key[of m'] keys by auto
      with a show ?thesis by auto
    qed
  qed
next
  case (2 thoughtId m stale)
  then show ?case by simp
next
  case (3 thoughtId k ks m stale)
  from markStale_shape(2)[OF 3(5)] obtain new where
    whole: "map_of m' = stale_upd (set new) (map_of m)" by auto
  show ?case
  proof (cases "map_get m k")
    case None
    then have "\<not> depends_on m k thoughtId" by (simp add: depends_on_def)
    then have "\<not> depends_on m' k thoughtId" using depends_on_stale_upd[OF whole] by simp
    with 3(1)[OF None] 3(5) None show ?thesis by simp
  next
    case (Some t)
    show ?thesis
    proof (cases "thoughtId \<in> set (dependencies t) \<and> status t = Active")
      case False
      then have "depends_on m k thoughtId \<longrightarrow> \<not> is_active m k"
        using Some by (auto simp: depends_on_def is_active_def)
      then have "depends_on m' k thoughtId \<longrightarrow> \<not> is_active m' k"
        using depends_on_stale_upd[OF whole] is_active_stale_upd[OF whole] by simp
      with 3(4)[OF Some False] 3(5) Some False show ?thesis by auto
    next
      case True
      obtain m1 sub where r: "markStale m k = (m1, sub)" by (cases "markStale m k")
      from 3(5) Some True r
      have r2: "markStale_loop thoughtId ks (m1, stale @ sub) = (m', out)" by simp
      note sh = markStale_shape(1)[OF r]
      have m1: "map_of m1 = stale_upd (set sub) (map_of m)" using sh by simp
      have "is_active m k" using Some True by (simp add: is_active_def)
      then have ksub: "k \<in> set sub" using sh by (metis list.set_intros(1))
      from markStale_shape(2)[OF r2] obtain new2 where
        rest: "map_of m' = stale_upd (set new2) (map_of m1)" by auto
      have "\<not> is_active m1 k" using is_active_stale_upd[OF m1] ksub by simp
      then have nk: "\<not> is_active m' k" using is_active_stale_upd[OF rest] by simp
      have s: "\<forall>x\<in>set sub. no_active_dependent m' x"
        using 3(2)[OF Some True r] no_active_dependent_mono[OF rest] by blast
      from 3(3)[OF Some True r[symmetric] r2] have
        a: "\<forall>x\<in>set out. x \<in> set (stale @ sub) \<or> no_active_dependent m' x" and
        b: "\<forall>j\<in>set ks. depends_on m' j thoughtId \<longrightarrow> \<not> is_active m' j"
        by simp_all
      show ?thesis using a b s nk by auto
    qed
  qed
qed

lemma markStale_complete:
  assumes "markStale m a = (m', out)" and "is_active m a" and "cascade m a k"
  shows "k \<in> set out"
  using assms(3)
proof (induction rule: cascade.induct)
  case root
  from markStale_shape(1)[OF assms(1)] assms(2) have "out = a # tl out" by simp
  then show ?case by (metis list.set_intros(1))
next
  case (dependent x y t)
  note sh = markStale_shape(1)[OF assms(1)]
  have m': "map_of m' = stale_upd (set out) (map_of m)" using sh by simp
  have "depends_on m y x" "is_active m y"
    using dependent by (simp_all add: depends_on_def is_active_def)
  moreover have "no_active_dependent m' x"
    using markStale_closed(1)[OF assms(1)] dependent.IH by blast
  ultimately show ?case
    using depends_on_stale_upd[OF m'] is_active_stale_upd[OF m']
    by (auto simp: no_active_dependent_def)
qed

subsection \<open>invalidate_assumption\<close>

lemma markStale_cascade_set:
  assumes "markStale m a = (m', out)" and "is_active m a"
  shows "set out = {k. cascade m a k}"
  using markStale_sound(1)[OF assms(1)] markStale_complete[OF assms] by auto

lemma markStale_inactive:
  "\<not> is_active m a \<Longrightarrow> markStale m a = (m, [])"
  by (auto simp: markStale.simps is_active_def split: option.splits)

lemma map_get_map_set: "map_get (map_set m k v) j = (if j = k then Some v else map_get m j)"
  by (simp add: map_get_def map_set_def update_conv')

lemma map_get_key: "map_get m k = Some t \<Longrightarrow> k \<in> set (map_keys m)"
  by (auto simp: map_get_def map_keys_def dest: map_of_SomeD intro: rev_image_eqI)

lemma cascade_active: "cascade m a k \<Longrightarrow> k = a \<or> is_active m k"
  by (induction rule: cascade.induct) (auto simp: is_active_def)

text \<open>
  C1 (as amended). Invalidating an assumption that is already stale stales no thought and
  returns an empty list of newly stale ids; the graph still grows by one critique thought,
  which depends on the assumption and embeds the reason.
\<close>

theorem invalidate_stale_assumption:
  assumes "map_get (thoughts g) a = Some t"
    and "thought_type t = Assumption"
    and "status t = Stale"
  shows "handleInvalidateAssumption g \<lparr>thought_id = a, reason = rsn\<rparr> newId now =
     (Inr \<lparr>invalidated_thoughts = [], critique_id = newId\<rparr>,
      g\<lparr>thoughts := map_set (thoughts g) newId
           \<lparr>id_of = newId, thought = critique_text (thought t) rsn,
            thought_type = Critique, dependencies = [a], confidence = None,
            action_request = None, timestamp = now, status = Active\<rparr>\<rparr>)"
proof -
  have "\<not> is_active (thoughts g) a" using assms by (simp add: is_active_def)
  then have "markStale (thoughts g) a = (thoughts g, [])" by (rule markStale_inactive)
  then show ?thesis using assms by (simp add: handleInvalidateAssumption_def)
qed

theorem invalidate_stale_assumption_witness:
  "handleInvalidateAssumption stale_assumption_graph \<lparr>thought_id = ''A'', reason = ''R''\<rparr> ''C'' 7 =
     (Inr \<lparr>invalidated_thoughts = [], critique_id = ''C''\<rparr>,
      stale_assumption_graph\<lparr>thoughts := map_set (thoughts stale_assumption_graph) ''C''
           \<lparr>id_of = ''C'', thought = critique_text ''A'' ''R'',
            thought_type = Critique, dependencies = [''A''], confidence = None,
            action_request = None, timestamp = 7, status = Active\<rparr>\<rparr>)"
  using invalidate_stale_assumption[of stale_assumption_graph "''A''"
      "ex_thought ''A'' Assumption [] Stale" "''R''" "''C''" 7]
  by (simp add: stale_assumption_graph_def ex_graph_def ex_thought_def map_get_def)

theorem invalidate_stale_not_noop:
  "map_get (thoughts stale_assumption_graph) ''A'' = Some (ex_thought ''A'' Assumption [] Stale) \<and>
   map_get (thoughts stale_assumption_graph) ''C'' = None \<and>
   map_get (thoughts (snd (handleInvalidateAssumption stale_assumption_graph
       \<lparr>thought_id = ''A'', reason = ''R''\<rparr> ''C'' 7))) ''C'' =
     Some \<lparr>id_of = ''C'', thought = critique_text ''A'' ''R'',
            thought_type = Critique, dependencies = [''A''], confidence = None,
            action_request = None, timestamp = 7, status = Active\<rparr> \<and>
   map_size (thoughts stale_assumption_graph) = 1 \<and>
   map_size (thoughts (snd (handleInvalidateAssumption stale_assumption_graph
       \<lparr>thought_id = ''A'', reason = ''R''\<rparr> ''C'' 7))) = 2"
  by (simp add: stale_assumption_graph_def ex_graph_def ex_thought_def map_get_def
      handleInvalidateAssumption_def markStale.simps map_set_def map_size_def)

text \<open>
  C2. Invalidating an active assumption \<open>a\<close> stales exactly the thoughts of
  \<open>cascade (thoughts g) a\<close>: \<open>a\<close> itself and every thought reached from it along
  reverse-dependency edges through thoughts that were active. Every other thought is left
  as it was. The returned list holds each newly stale id once, \<open>a\<close> first.
\<close>

theorem invalidate_cascade_closure:
  assumes "map_get (thoughts g) a = Some t"
    and "thought_type t = Assumption"
    and "status t = Active"
    and "newId \<notin> set (map_keys (thoughts g))"
  shows "\<exists>r g'. handleInvalidateAssumption g \<lparr>thought_id = a, reason = rsn\<rparr> newId now = (Inr r, g') \<and>
      distinct (invalidated_thoughts r) \<and> hd (invalidated_thoughts r) = a \<and>
      set (invalidated_thoughts r) = {k. cascade (thoughts g) a k} \<and>
      (\<forall>k. cascade (thoughts g) a k \<longrightarrow>
         (\<exists>u. map_get (thoughts g) k = Some u \<and> status u = Active \<and>
              map_get (thoughts g') k = Some (u\<lparr>status := Stale\<rparr>))) \<and>
      (\<forall>k. \<not> cascade (thoughts g) a k \<and> k \<noteq> newId \<longrightarrow>
         map_get (thoughts g') k = map_get (thoughts g) k)"
proof -
  obtain m' out where ms: "markStale (thoughts g) a = (m', out)"
    by (cases "markStale (thoughts g) a")
  have act: "is_active (thoughts g) a" using assms(1,3) by (simp add: is_active_def)
  note sh = markStale_shape(1)[OF ms]
  have m': "map_get m' = stale_upd (set out) (map_get (thoughts g))"
    using sh by (simp add: map_get_def[abs_def])
  have out: "set out = {k. cascade (thoughts g) a k}"
    using ms act by (rule markStale_cascade_set)
  have hd: "hd out = a" using sh act by (metis list.sel(1))
  let ?c = "\<lparr>id_of = newId, thought = critique_text (thought t) rsn,
            thought_type = Critique, dependencies = [a], confidence = None,
            action_request = None, timestamp = now, status = Active\<rparr>"
  let ?r = "\<lparr>invalidated_thoughts = out, critique_id = newId\<rparr>"
  let ?g' = "g\<lparr>thoughts := map_set m' newId ?c\<rparr>"
  have run: "handleInvalidateAssumption g \<lparr>thought_id = a, reason = rsn\<rparr> newId now = (Inr ?r, ?g')"
    using assms(1,2) ms by (simp add: handleInvalidateAssumption_def)
  have staled: "\<exists>u. map_get (thoughts g) k = Some u \<and> status u = Active \<and>
              map_get (thoughts ?g') k = Some (u\<lparr>status := Stale\<rparr>)"
    if c: "cascade (thoughts g) a k" for k
  proof -
    have k: "k \<in> set out" using c out by simp
    then have "is_active (thoughts g) k" using sh by simp
    then obtain u where u: "map_get (thoughts g) k = Some u" "status u = Active"
      by (auto simp: is_active_def split: option.splits)
    then have "k \<noteq> newId" using assms(4) map_get_key by blast
    then show ?thesis using u k m' by (simp add: map_get_map_set stale_upd_def)
  qed
  have others: "map_get (thoughts ?g') k = map_get (thoughts g) k"
    if "\<not> cascade (thoughts g) a k \<and> k \<noteq> newId" for k
    using that out m' by (simp add: map_get_map_set stale_upd_def)
  show ?thesis
    using run sh hd out staled others
    by (intro exI[of _ ?r] exI[of _ ?g']) (simp del: ReasoningGraph.simps)
qed

theorem invalidate_cascade_closure_witness:
  "{k. cascade (thoughts scenario_A) ''A'' k} = {''A'', ''S''} \<and>
   map_get (thoughts scenario_A) ''A'' = Some (ex_thought ''A'' Assumption [''H''] Active) \<and>
   ''C'' \<notin> set (map_keys (thoughts scenario_A))"
proof -
  have h: "map_get (thoughts scenario_A) ''A'' = Some (ex_thought ''A'' Assumption [''H''] Active)"
    "thought_type (ex_thought ''A'' Assumption [''H''] Active) = Assumption"
    "status (ex_thought ''A'' Assumption [''H''] Active) = Active"
    "''C'' \<notin> set (map_keys (thoughts scenario_A))"
    by (simp_all add: scenario_A_def ex_graph_def ex_thought_def map_get_def map_keys_def)
  have run: "fst (handleInvalidateAssumption scenario_A \<lparr>thought_id = ''A'', reason = ''R''\<rparr> ''C'' 5)
      = Inr \<lparr>invalidated_thoughts = [''A'', ''S''], critique_id = ''C''\<rparr>"
    by (simp add: scenario_A_def ex_graph_def ex_thought_def handleInvalidateAssumption_def
        map_get_def map_set_def map_keys_def markStale.simps)
  from invalidate_cascade_closure[OF h, of "''R''" 5] run
  have "{k. cascade (thoughts scenario_A) ''A'' k} = set [''A'', ''S'']" by auto
  with h show ?thesis by simp
qed

section \<open>The cycle check\<close>

subsection \<open>Fully explored nodes lie on no cycle\<close>

lemma explored_reach:
  assumes "explored E B" and "(x, y) \<in> E\<^sup>*" and "x \<in> B"
  shows "y \<in> B"
  using assms(2,1,3) by (induction rule: rtrancl_induct) (auto simp: explored_def)

lemma explored_insert:
  assumes "explored E B" and "\<forall>d. (n, d) \<in> E \<longrightarrow> d \<in> B" and "n \<notin> B"
  shows "explored E (insert n B)"
proof -
  have "(n, n) \<notin> E\<^sup>+"
  proof
    assume "(n, n) \<in> E\<^sup>+"
    then obtain d where "(n, d) \<in> E" "(d, n) \<in> E\<^sup>*" by (meson tranclD)
    then have "n \<in> B" using assms(1,2) explored_reach by blast
    with assms(3) show False by simp
  qed
  with assms(1,2) show ?thesis by (auto simp: explored_def)
qed

lemma hasCycle_no_cycle:
  "hasCycle m deps tempId nodeId st = (False, st1) \<Longrightarrow> snd st \<subseteq> fst st \<Longrightarrow>
     explored (ext_edges m deps tempId) (fst st - snd st) \<Longrightarrow>
     snd st1 = snd st \<and> fst st \<subseteq> fst st1 \<and>
     explored (ext_edges m deps tempId) (fst st1 - snd st1) \<and> nodeId \<in> fst st1 - snd st1"
  "hasCycle_loop m' deps' tempId' ds st' = (False, st2) \<Longrightarrow> snd st' \<subseteq> fst st' \<Longrightarrow>
     explored (ext_edges m' deps' tempId') (fst st' - snd st') \<Longrightarrow>
     snd st2 = snd st' \<and> fst st' \<subseteq> fst st2 \<and>
     explored (ext_edges m' deps' tempId') (fst st2 - snd st2) \<and> set ds \<subseteq> fst st2 - snd st2"
proof (induction m deps tempId nodeId st and m' deps' tempId' ds st' arbitrary: st1 and st2
       rule: hasCycle_hasCycle_loop.induct)
  case (1 m deps tempId nodeId visited recursiveStack)
  let ?E = "ext_edges m deps tempId"
  show ?case
  proof (cases "nodeId \<in> recursiveStack")
    case True
    with 1(2) show ?thesis by (simp add: hasCycle.simps)
  next
    case ns: False
    show ?thesis
    proof (cases "nodeId \<in> visited")
      case True
      with ns 1(2) 1(3) 1(4) show ?thesis by (auto simp: hasCycle.simps)
    next
      case nv: False
      obtain found v1 s1 where
        r: "hasCycle_loop m deps tempId (node_deps m deps tempId nodeId)
              (insert nodeId visited, insert nodeId recursiveStack) = (found, v1, s1)"
        by (metis prod_cases3)
      with 1(2) ns nv have nf: "\<not> found" and st1: "st1 = (v1, s1 - {nodeId})"
        by (auto simp: hasCycle.simps split: if_splits)
      have eq: "insert nodeId visited - insert nodeId recursiveStack = visited - recursiveStack"
        using nv by auto
      from 1(1)[OF ns nv, of "(v1, s1)"] r nf 1(3) 1(4) eq
      have ih: "s1 = insert nodeId recursiveStack" "insert nodeId visited \<subseteq> v1"
        "explored ?E (v1 - s1)" "set (node_deps m deps tempId nodeId) \<subseteq> v1 - s1"
        by auto
      have black: "v1 - (s1 - {nodeId}) = insert nodeId (v1 - s1)"
        using ih(1,2) by auto
      have "explored ?E (insert nodeId (v1 - s1))"
      proof (rule explored_insert[OF ih(3)])
        show "\<forall>d. (nodeId, d) \<in> ?E \<longrightarrow> d \<in> v1 - s1"
          using ih(4) by (auto simp: ext_edges_def)
        show "nodeId \<notin> v1 - s1" using ih(1) by simp
      qed
      then show ?thesis using st1 ih(1,2) black ns by auto
    qed
  qed
next
  case (2 m deps tempId st)
  then show ?case by simp
next
  case (3 m deps tempId depId rest st)
  obtain found sa where r: "hasCycle m deps tempId depId st = (found, sa)"
    by (cases "hasCycle m deps tempId depId st")
  with 3(3) have nf: "\<not> found" and r2: "hasCycle_loop m deps tempId rest sa = (False, st2)"
    by (auto split: if_splits)
  from 3(1)[of sa] r nf 3(4) 3(5)
  have a: "snd sa = snd st" "fst st \<subseteq> fst sa" "explored (ext_edges m deps tempId) (fst sa - snd sa)"
    "depId \<in> fst sa - snd sa" by auto
  have sub: "snd sa \<subseteq> fst sa" using a(1,2) 3(4) by auto
  from 3(2)[OF r[symmetric] nf r2 sub a(3)]
  have b: "snd st2 = snd sa" "fst sa \<subseteq> fst st2"
    "explored (ext_edges m deps tempId) (fst st2 - snd st2)" "set rest \<subseteq> fst st2 - snd st2"
    by auto
  have "snd st2 = snd st" using a(1) b(1) by simp
  moreover have "fst st \<subseteq> fst st2" using a(2) b(2) by (rule subset_trans)
  moreover have "depId \<in> fst st2 - snd st2" using a(4) b(1,2) by blast
  ultimately show ?case using b(3,4) by simp
qed

lemma hasCycle_complete:
  assumes "closes_cycle m deps tempId"
  shows "fst (hasCycle m deps tempId tempId ({}, {}))"
proof (rule ccontr)
  assume "\<not> fst (hasCycle m deps tempId tempId ({}, {}))"
  then obtain st1 where r: "hasCycle m deps tempId tempId ({}, {}) = (False, st1)"
    by (cases "hasCycle m deps tempId tempId ({}, {})") auto
  have "explored (ext_edges m deps tempId) (fst ({}, {}) - snd ({}, {}))"
    by (simp add: explored_def)
  from hasCycle_no_cycle(1)[OF r _ this]
  have e: "explored (ext_edges m deps tempId) (fst st1 - snd st1)" and t: "tempId \<in> fst st1 - snd st1"
    by auto
  from assms obtain x where x: "(tempId, x) \<in> (ext_edges m deps tempId)\<^sup>*"
    "(x, x) \<in> (ext_edges m deps tempId)\<^sup>+" by (auto simp: closes_cycle_def)
  from explored_reach[OF e x(1) t] have "x \<in> fst st1 - snd st1" .
  with e have "(x, x) \<notin> (ext_edges m deps tempId)\<^sup>+" unfolding explored_def by blast
  with x(2) show False by simp
qed

text \<open>Conversely, the check reports a cycle only where there is one.\<close>

lemma hasCycle_stack:
  "hasCycle m deps tempId nodeId st = (False, st1) \<Longrightarrow> snd st1 = snd st"
  "hasCycle_loop m' deps' tempId' ds st' = (False, st2) \<Longrightarrow> snd st2 = snd st'"
proof (induction m deps tempId nodeId st and m' deps' tempId' ds st' arbitrary: st1 and st2
       rule: hasCycle_hasCycle_loop.induct)
  case (1 m deps tempId nodeId visited recursiveStack)
  show ?case
  proof (cases "nodeId \<in> recursiveStack \<or> nodeId \<in> visited")
    case True
    with 1(2) show ?thesis by (auto simp: hasCycle.simps split: if_splits)
  next
    case False
    then have ns: "nodeId \<notin> recursiveStack" and nv: "nodeId \<notin> visited" by simp_all
    obtain found v1 s1 where
      r: "hasCycle_loop m deps tempId (node_deps m deps tempId nodeId)
            (insert nodeId visited, insert nodeId recursiveStack) = (found, v1, s1)"
      by (metis prod_cases3)
    with 1(2) ns nv have nf: "\<not> found" and st1: "st1 = (v1, s1 - {nodeId})"
      by (auto simp: hasCycle.simps split: if_splits)
    from 1(1)[OF ns nv, of "(v1, s1)"] r nf have "s1 = insert nodeId recursiveStack" by simp
    with st1 ns show ?thesis by auto
  qed
next
  case (2 m deps tempId st)
  then show ?case by simp
next
  case (3 m deps tempId depId rest st)
  obtain found sa where r: "hasCycle m deps tempId depId st = (found, sa)"
    by (cases "hasCycle m deps tempId depId st")
  with 3(3) have nf: "\<not> found" and r2: "hasCycle_loop m deps tempId rest sa = (False, st2)"
    by (auto split: if_splits)
  from 3(1)[of sa] r nf have "snd sa = snd st" by simp
  with 3(2)[OF r[symmetric] nf r2] show ?case by simp
qed

lemma hasCycle_found:
  "hasCycle m deps tempId nodeId st = (True, st1) \<Longrightarrow>
     (\<forall>s\<in>snd st. (s, nodeId) \<in> (ext_edges m deps tempId)\<^sup>+) \<Longrightarrow>
     \<exists>x. (nodeId, x) \<in> (ext_edges m deps tempId)\<^sup>* \<and> (x, x) \<in> (ext_edges m deps tempId)\<^sup>+"
  "hasCycle_loop m' deps' tempId' ds st' = (True, st2) \<Longrightarrow>
     (\<forall>d\<in>set ds. \<forall>s\<in>snd st'. (s, d) \<in> (ext_edges m' deps' tempId')\<^sup>+) \<Longrightarrow>
     \<exists>d\<in>set ds. \<exists>x. (d, x) \<in> (ext_edges m' deps' tempId')\<^sup>* \<and>
        (x, x) \<in> (ext_edges m' deps' tempId')\<^sup>+"
proof (induction m deps tempId nodeId st and m' deps' tempId' ds st' arbitrary: st1 and st2
       rule: hasCycle_hasCycle_loop.induct)
  case (1 m deps tempId nodeId visited recursiveStack)
  let ?E = "ext_edges m deps tempId"
  show ?case
  proof (cases "nodeId \<in> recursiveStack")
    case True
    with 1(3) have "(nodeId, nodeId) \<in> ?E\<^sup>+" by simp
    then show ?thesis by blast
  next
    case ns: False
    show ?thesis
    proof (cases "nodeId \<in> visited")
      case True
      with ns 1(2) show ?thesis by (simp add: hasCycle.simps)
    next
      case nv: False
      obtain found v1 s1 where
        r: "hasCycle_loop m deps tempId (node_deps m deps tempId nodeId)
              (insert nodeId visited, insert nodeId recursiveStack) = (found, v1, s1)"
        by (metis prod_cases3)
      with 1(2) ns nv have f: "found" by (auto simp: hasCycle.simps split: if_splits)
      have pre: "\<forall>d\<in>set (node_deps m deps tempId nodeId).
          \<forall>s\<in>snd (insert nodeId visited, insert nodeId recursiveStack). (s, d) \<in> ?E\<^sup>+"
      proof (intro ballI)
        fix d s
        assume d: "d \<in> set (node_deps m deps tempId nodeId)"
          and s: "s \<in> snd (insert nodeId visited, insert nodeId recursiveStack)"
        from d have e: "(nodeId, d) \<in> ?E" by (simp add: ext_edges_def)
        show "(s, d) \<in> ?E\<^sup>+"
        proof (cases "s = nodeId")
          case True
          with e show ?thesis by blast
        next
          case False
          with s 1(3) have "(s, nodeId) \<in> ?E\<^sup>+" by simp
          with e show ?thesis by (meson trancl.trancl_into_trancl)
        qed
      qed
      from r f have "hasCycle_loop m deps tempId (node_deps m deps tempId nodeId)
              (insert nodeId visited, insert nodeId recursiveStack) = (True, v1, s1)" by simp
      from 1(1)[OF ns nv this pre] obtain d x where
        d: "d \<in> set (node_deps m deps tempId nodeId)" and x: "(d, x) \<in> ?E\<^sup>*" "(x, x) \<in> ?E\<^sup>+"
        by blast
      from d have "(nodeId, d) \<in> ?E" by (simp add: ext_edges_def)
      with x(1) have "(nodeId, x) \<in> ?E\<^sup>*" by (meson converse_rtrancl_into_rtrancl)
      with x(2) show ?thesis by blast
    qed
  qed
next
  case (2 m deps tempId st)
  then show ?case by simp
next
  case (3 m deps tempId depId rest st)
  obtain found sa where r: "hasCycle m deps tempId depId st = (found, sa)"
    by (cases "hasCycle m deps tempId depId st")
  show ?case
  proof (cases found)
    case True
    with r have "hasCycle m deps tempId depId st = (True, sa)" by simp
    from 3(1)[OF this] 3(4) show ?thesis by simp
  next
    case False
    with r 3(3) have r2: "hasCycle_loop m deps tempId rest sa = (True, st2)" by simp
    from r False have "hasCycle m deps tempId depId st = (False, sa)" by simp
    then have "snd sa = snd st" by (rule hasCycle_stack(1))
    with 3(4) have "\<forall>d\<in>set rest. \<forall>s\<in>snd sa. (s, d) \<in> (ext_edges m deps tempId)\<^sup>+" by simp
    from 3(2)[OF r[symmetric] False r2 this] show ?thesis by auto
  qed
qed

lemma hasCycle_iff_closes_cycle:
  "fst (hasCycle m deps tempId tempId ({}, {})) \<longleftrightarrow> closes_cycle m deps tempId"
proof
  assume "fst (hasCycle m deps tempId tempId ({}, {}))"
  then obtain st1 where "hasCycle m deps tempId tempId ({}, {}) = (True, st1)"
    by (cases "hasCycle m deps tempId tempId ({}, {})") auto
  from hasCycle_found(1)[OF this] show "closes_cycle m deps tempId"
    by (simp add: closes_cycle_def)
next
  assume "closes_cycle m deps tempId"
  then show "fst (hasCycle m deps tempId tempId ({}, {}))" by (rule hasCycle_complete)
qed

subsection \<open>Rejected insertions\<close>

lemma dependencies_exist_Some:
  "\<exists>d\<in>set deps. \<not> map_has m d \<Longrightarrow>
   \<exists>d\<in>set deps. \<not> map_has m d \<and>
      dependencies_exist m deps = Some (McpError InvalidParams (dangling_message d))"
  by (induction deps) auto

lemma dependencies_exist_None:
  "dependencies_exist m deps = None \<longleftrightarrow> (\<forall>d\<in>set deps. map_has m d)"
  by (induction deps) auto

text \<open>
  C5. An insertion naming a dependency that is absent from the graph fails with the
  message of the dangling dependency and leaves the graph as it was. An insertion whose
  dependencies are all present and whose candidate node reaches a cycle fails with
  \<open>Circular dependency detected\<close> and leaves the graph as it was. The two errors carry
  the same code and different messages, so a caller can tell them apart.
\<close>

theorem log_thought_rejections:
  "((\<exists>d\<in>set (dependencies_in input). \<not> map_has (thoughts g) d) \<longrightarrow>
      (\<exists>d\<in>set (dependencies_in input). \<not> map_has (thoughts g) d \<and>
         handleLogThought g input tempNow newId now =
           (Inl (McpError InvalidParams (dangling_message d)), g))) \<and>
   ((\<forall>d\<in>set (dependencies_in input). map_has (thoughts g) d) \<and>
      closes_cycle (thoughts g) (dependencies_in input) (temp_id tempNow) \<longrightarrow>
      handleLogThought g input tempNow newId now =
        (Inl (McpError InvalidParams ''Circular dependency detected''), g)) \<and>
   McpError InvalidParams (dangling_message d') \<noteq>
     McpError InvalidParams ''Circular dependency detected''"
proof (intro conjI impI)
  assume "\<exists>d\<in>set (dependencies_in input). \<not> map_has (thoughts g) d"
  from dependencies_exist_Some[OF this]
  show "\<exists>d\<in>set (dependencies_in input). \<not> map_has (thoughts g) d \<and>
         handleLogThought g input tempNow newId now =
           (Inl (McpError InvalidParams (dangling_message d)), g)"
    by (auto simp: handleLogThought_def validateDependencies_def)
next
  assume a: "(\<forall>d\<in>set (dependencies_in input). map_has (thoughts g) d) \<and>
      closes_cycle (thoughts g) (dependencies_in input) (temp_id tempNow)"
  then have "dependencies_exist (thoughts g) (dependencies_in input) = None"
    by (simp add: dependencies_exist_None)
  moreover from a have "fst (hasCycle (thoughts g) (dependencies_in input) (temp_id tempNow)
      (temp_id tempNow) ({}, {}))"
    by (simp add: hasCycle_complete)
  ultimately show "handleLogThought g input tempNow newId now =
        (Inl (McpError InvalidParams ''Circular dependency detected''), g)"
    by (simp add: handleLogThought_def validateDependencies_def)
next
  show "McpError InvalidParams (dangling_message d') \<noteq>
     McpError InvalidParams ''Circular dependency detected''"
    by (simp add: dangling_message_def)
qed

lemma cyclic_graph_closes:
  "closes_cycle (thoughts cyclic_graph) [''A''] (temp_id 0)"
proof -
  let ?E = "ext_edges (thoughts cyclic_graph) [''A''] (temp_id 0)"
  have t: "temp_id 0 = ''temp_0''"
    by (simp add: temp_id_def number_to_string_def digits_of_nat.simps digit_char_def)
  have e: "(''temp_0'', ''A'') \<in> ?E" "(''A'', ''B'') \<in> ?E" "(''B'', ''A'') \<in> ?E"
    by (simp_all add: t ext_edges_def node_deps_def cyclic_graph_def ex_graph_def
        ex_thought_def map_get_def)
  have "(''A'', ''A'') \<in> ?E\<^sup>+" using e(2,3) by (meson trancl.simps)
  moreover have "(temp_id 0, ''A'') \<in> ?E\<^sup>*" using e(1) t by auto
  ultimately show ?thesis unfolding closes_cycle_def by blast
qed

theorem log_thought_rejections_witness:
  "handleLogThought scenario_A (ex_input Hypothesis [''O'', ''X'']) 0 ''N'' 9 =
     (Inl (McpError InvalidParams (dangling_message ''X'')), scenario_A) \<and>
   handleLogThought cyclic_graph (ex_input Hypothesis [''A'']) 0 ''N'' 9 =
     (Inl (McpError InvalidParams ''Circular dependency detected''), cyclic_graph) \<and>
   closes_cycle (thoughts cyclic_graph) [''A''] (temp_id 0) \<and>
   \<not> map_has (thoughts scenario_A) ''X''"
proof -
  have x: "\<not> map_has (thoughts scenario_A) ''X''" "map_has (thoughts scenario_A) ''O''"
    by (simp_all add: scenario_A_def ex_graph_def ex_thought_def map_has_def)
  have d: "dependencies_in (ex_input Hypothesis [''O'', ''X'']) = [''O'', ''X'']"
    "dependencies_in (ex_input Hypothesis [''A'']) = [''A'']"
    by (simp_all add: ex_input_def)
  have a: "map_has (thoughts cyclic_graph) ''A''"
    by (simp add: cyclic_graph_def ex_graph_def ex_thought_def map_has_def)
  note th1 = log_thought_rejections[of "ex_input Hypothesis [''O'', ''X'']" scenario_A 0 "''N''" 9]
  note th2 = log_thought_rejections[of "ex_input Hypothesis [''A'']" cyclic_graph 0 "''N''" 9]
  from th1 x d have "handleLogThought scenario_A (ex_input Hypothesis [''O'', ''X'']) 0 ''N'' 9 =
     (Inl (McpError InvalidParams (dangling_message ''X'')), scenario_A)"
    by auto
  moreover from th2 a d cyclic_graph_closes
  have "handleLogThought cyclic_graph (ex_input Hypothesis [''A'']) 0 ''N'' 9 =
     (Inl (McpError InvalidParams ''Circular dependency detected''), cyclic_graph)"
    by auto
  ultimately show ?thesis using cyclic_graph_closes x(1) by simp
qed

section \<open>Invariants of the graph\<close>

subsection \<open>Acyclicity and closedness\<close>

lemma grounded_acyclic: "grounded m \<Longrightarrow> acyclic (dep_rel m)"
  by (rule acyclicI_order[where f = "pos m"]) (auto simp: grounded_def dep_rel_def)

lemma grounded_status:
  "map_of m' = stale_upd S (map_of m) \<Longrightarrow> map_keys m' = map_keys m \<Longrightarrow>
   grounded m \<Longrightarrow> grounded m'"
  by (simp add: grounded_def depends_on_stale_upd pos_def)

lemma map_keys_map_set:
  "map_keys (map_set m k v) = (if k \<in> set (map_keys m) then map_keys m else map_keys m @ [k])"
  unfolding map_keys_def map_set_def by (induction m) auto

lemma takeWhile_neq_less:
  "x \<in> set xs \<Longrightarrow> length (takeWhile (\<lambda>k. k \<noteq> x) xs) < length xs"
  by (induction xs) auto

lemma pos_less: "x \<in> set (map_keys m) \<Longrightarrow> pos m x < length (map_keys m)"
  unfolding pos_def by (rule takeWhile_neq_less)

lemma depends_on_map_set:
  "depends_on (map_set m k v) y x \<longleftrightarrow>
     (if y = k then x \<in> set (dependencies v) else depends_on m y x)"
  by (simp add: depends_on_def map_get_map_set)

lemma grounded_append:
  assumes "grounded m" and "k \<notin> set (map_keys m)"
    and "set (dependencies v) \<subseteq> set (map_keys m)"
  shows "grounded (map_set m k v)"
proof -
  have keys: "map_keys (map_set m k v) = map_keys m @ [k]"
    using assms(2) by (simp add: map_keys_map_set)
  have old: "pos (map_set m k v) x = pos m x" if "x \<in> set (map_keys m)" for x
    using that unfolding pos_def keys by (simp add: takeWhile_append1)
  have new: "pos (map_set m k v) k = length (map_keys m)"
    using assms(2) unfolding pos_def keys by (subst takeWhile_append2) auto
  show ?thesis
    unfolding grounded_def
  proof (intro allI impI)
    fix y x
    assume d: "depends_on (map_set m k v) y x"
    show "x \<in> set (map_keys (map_set m k v)) \<and> pos (map_set m k v) x < pos (map_set m k v) y"
    proof (cases "y = k")
      case True
      with d have "x \<in> set (map_keys m)" using assms(3) by (auto simp: depends_on_map_set)
      then show ?thesis using True old new pos_less keys by simp
    next
      case False
      with d have dm: "depends_on m y x" by (simp add: depends_on_map_set)
      then have "x \<in> set (map_keys m)" "pos m x < pos m y" "y \<in> set (map_keys m)"
        using assms(1) depends_on_key by (auto simp: grounded_def)
      then show ?thesis using old keys by simp
    qed
  qed
qed

lemma map_has_key: "map_has m k \<longleftrightarrow> k \<in> set (map_keys m)"
  by (auto simp: map_has_def map_keys_def map_of_eq_None_iff)

text \<open>
  In a grounded graph a candidate whose dependencies are all present closes no cycle, as
  long as the temporary id is not a key: the insertion is accepted.
\<close>

lemma grounded_not_closes_cycle:
  assumes "grounded m" and "set deps \<subseteq> set (map_keys m)" and "tempId \<notin> set (map_keys m)"
  shows "\<not> closes_cycle m deps tempId"
proof -
  let ?rank = "\<lambda>x. if x = tempId then Suc (length (map_keys m)) else pos m x"
  have "acyclic (ext_edges m deps tempId)"
  proof (rule acyclicI_order[where f = ?rank])
    fix x d
    assume "(x, d) \<in> ext_edges m deps tempId"
    then have e: "d \<in> set (node_deps m deps tempId x)" by (simp add: ext_edges_def)
    show "?rank d < ?rank x"
    proof (cases "x = tempId")
      case True
      with e assms(2) have d: "d \<in> set (map_keys m)" by (auto simp: node_deps_def)
      with assms(3) have "d \<noteq> tempId" by auto
      with d True pos_less[OF d] show ?thesis by simp
    next
      case False
      with e have "depends_on m x d"
        by (cases "map_get m x") (simp_all add: node_deps_def depends_on_def)
      with assms(1) have "d \<in> set (map_keys m)" "pos m d < pos m x"
        by (auto simp: grounded_def)
      with assms(3) False show ?thesis by auto
    qed
  qed
  then show ?thesis by (auto simp: closes_cycle_def acyclic_def)
qed

lemma log_thought_accepted:
  assumes "grounded (thoughts g)"
    and "\<forall>d\<in>set (dependencies_in input). map_has (thoughts g) d"
    and "temp_id tempNow \<notin> set (map_keys (thoughts g))"
  shows "\<exists>r. fst (handleLogThought g input tempNow newId now) = Inr r"
proof -
  have "set (dependencies_in input) \<subseteq> set (map_keys (thoughts g))"
    using assms(2) by (auto simp: map_has_key)
  from grounded_not_closes_cycle[OF assms(1) this assms(3)]
  have "\<not> fst (hasCycle (thoughts g) (dependencies_in input) (temp_id tempNow)
      (temp_id tempNow) ({}, {}))"
    by (simp add: hasCycle_iff_closes_cycle)
  moreover have "dependencies_exist (thoughts g) (dependencies_in input) = None"
    using assms(2) by (simp add: dependencies_exist_None)
  ultimately show ?thesis
    by (simp add: handleLogThought_def validateDependencies_def Let_def)
qed

lemma handleLogThought_cases:
  "handleLogThought g input tempNow newId now = (res, g') \<Longrightarrow>
     g' = g \<or>
     (set (dependencies_in input) \<subseteq> set (map_keys (thoughts g)) \<and>
      g' = g\<lparr>thoughts := map_set (thoughts g) newId
              \<lparr>id_of = newId, thought = thought_in input,
               thought_type = thought_type_in input,
               dependencies = dependencies_in input,
               confidence = confidence_in input,
               action_request = action_request_in input,
               timestamp = now, status = Active\<rparr>\<rparr>)"
  by (auto simp: handleLogThought_def validateDependencies_def Let_def dependencies_exist_None
        map_has_key split: sum.splits option.splits if_splits)

lemma handleInvalidateAssumption_cases:
  "handleInvalidateAssumption g input newId now = (res, g') \<Longrightarrow>
     g' = g \<or>
     (\<exists>t m' out. map_get (thoughts g) (thought_id input) = Some t \<and>
        thought_type t = Assumption \<and>
        markStale (thoughts g) (thought_id input) = (m', out) \<and>
        res = Inr \<lparr>invalidated_thoughts = out, critique_id = newId\<rparr> \<and>
        g' = g\<lparr>thoughts := map_set m' newId
              \<lparr>id_of = newId, thought = critique_text (thought t) (reason input),
               thought_type = Critique, dependencies = [thought_id input],
               confidence = None, action_request = None,
               timestamp = now, status = Active\<rparr>\<rparr>)"
  by (auto simp: handleInvalidateAssumption_def Let_def split: option.splits if_splits prod.splits)

lemma apply_op_grounded:
  assumes "grounded (thoughts g)" and "generated_id op \<notin> set (map_keys (thoughts g))"
  shows "grounded (thoughts (apply_op g op))"
proof (cases op)
  case (LogThought input tempNow newId now)
  obtain res g' where r: "handleLogThought g input tempNow newId now = (res, g')"
    by (cases "handleLogThought g input tempNow newId now")
  from handleLogThought_cases[OF r] show ?thesis
  proof
    assume "g' = g"
    with assms LogThought r show ?thesis by simp
  next
    assume a: "set (dependencies_in input) \<subseteq> set (map_keys (thoughts g)) \<and>
      g' = g\<lparr>thoughts := map_set (thoughts g) newId
              \<lparr>id_of = newId, thought = thought_in input,
               thought_type = thought_type_in input,
               dependencies = dependencies_in input,
               confidence = confidence_in input,
               action_request = action_request_in input,
               timestamp = now, status = Active\<rparr>\<rparr>"
    have "newId \<notin> set (map_keys (thoughts g))" using assms(2) LogThought by simp
    with a assms(1) have "grounded (thoughts g')"
      by (simp add: grounded_append)
    with LogThought r show ?thesis by simp
  qed
next
  case (InvalidateAssumption input newId now)
  obtain res g' where r: "handleInvalidateAssumption g input newId now = (res, g')"
    by (cases "handleInvalidateAssumption g input newId now")
  from handleInvalidateAssumption_cases[OF r] show ?thesis
  proof
    assume "g' = g"
    with assms InvalidateAssumption r show ?thesis by simp
  next
    assume "\<exists>t m' out. map_get (thoughts g) (thought_id input) = Some t \<and>
        thought_type t = Assumption \<and>
        markStale (thoughts g) (thought_id input) = (m', out) \<and>
        res = Inr \<lparr>invalidated_thoughts = out, critique_id = newId\<rparr> \<and>
        g' = g\<lparr>thoughts := map_set m' newId
              \<lparr>id_of = newId, thought = critique_text (thought t) (reason input),
               thought_type = Critique, dependencies = [thought_id input],
               confidence = None, action_request = None,
               timestamp = now, status = Active\<rparr>\<rparr>"
    then obtain t m' out where
      t: "map_get (thoughts g) (thought_id input) = Some t" and
      ms: "markStale (thoughts g) (thought_id input) = (m', out)" and
      g': "g' = g\<lparr>thoughts := map_set m' newId
              \<lparr>id_of = newId, thought = critique_text (thought t) (reason input),
               thought_type = Critique, dependencies = [thought_id input],
               confidence = None, action_request = None,
               timestamp = now, status = Active\<rparr>\<rparr>"
      by blast
    note sh = markStale_shape(1)[OF ms]
    have gm: "grounded m'" using sh assms(1) grounded_status by blast
    have keys: "map_keys m' = map_keys (thoughts g)" using sh by simp
    have "thought_id input \<in> set (map_keys m')" using t keys map_get_key by simp
    moreover have "newId \<notin> set (map_keys m')" using assms(2) InvalidateAssumption keys by simp
    ultimately have "grounded (thoughts g')" unfolding g' using gm
      by (simp add: grounded_append)
    with InvalidateAssumption r show ?thesis by simp
  qed
qed

lemma run_grounded:
  "grounded (thoughts g) \<Longrightarrow> ids_fresh g ops \<Longrightarrow> grounded (thoughts (run g ops))"
  unfolding run_def by (induction ops arbitrary: g) (auto intro: apply_op_grounded)

lemma run_Nil [simp]: "run g [] = g"
  by (simp add: run_def)

lemma run_Cons [simp]: "run g (op # ops) = run (apply_op g op) ops"
  by (simp add: run_def)

lemma run_snoc: "run g (ops @ [op]) = apply_op (run g ops) op"
  by (simp add: run_def)

lemmas eval_defs =
  empty_graph_def log_op_def ex_input_def handleLogThought_def validateDependencies_def
  hasCycle.simps node_deps_def temp_id_def number_to_string_def digits_of_nat.simps digit_char_def
  map_has_def map_get_def map_set_def map_keys_def map_size_def
  handleInvalidateAssumption_def markStale.simps critique_text_def Let_def

lemma scenario_ops_fresh: "ids_fresh (empty_graph ''s'' 0) scenario_ops"
  by (simp add: scenario_ops_def eval_defs)

lemma scenario_ops_keys:
  "map_keys (thoughts (run (empty_graph ''s'' 0) scenario_ops)) = [''O'', ''H'', ''A'', ''S'', ''C'']"
  by (simp add: scenario_ops_def eval_defs)

text \<open>
  C3. After any sequence of operations from the empty graph, with generated ids that are
  new, the dependency relation has no cycle and every dependency id of every stored
  thought names a thought of the graph.
\<close>

theorem graph_acyclic_closed:
  assumes "ids_fresh (empty_graph sid c) ops"
  shows "acyclic (dep_rel (thoughts (run (empty_graph sid c) ops))) \<and>
    (\<forall>k t d. map_get (thoughts (run (empty_graph sid c) ops)) k = Some t \<and>
        d \<in> set (dependencies t) \<longrightarrow> map_has (thoughts (run (empty_graph sid c) ops)) d)"
proof -
  have "grounded (thoughts (empty_graph sid c))"
    by (simp add: grounded_def empty_graph_def depends_on_def map_get_def)
  from run_grounded[OF this assms]
  have g: "grounded (thoughts (run (empty_graph sid c) ops))" .
  then have "acyclic (dep_rel (thoughts (run (empty_graph sid c) ops)))"
    by (rule grounded_acyclic)
  moreover have "map_has (thoughts (run (empty_graph sid c) ops)) d"
    if "map_get (thoughts (run (empty_graph sid c) ops)) k = Some t \<and> d \<in> set (dependencies t)"
    for k t d
  proof -
    from that have "depends_on (thoughts (run (empty_graph sid c) ops)) k d"
      by (simp add: depends_on_def)
    with g show ?thesis by (simp add: grounded_def map_has_key)
  qed
  ultimately show ?thesis by blast
qed

theorem graph_acyclic_closed_witness:
  "acyclic (dep_rel (thoughts (run (empty_graph ''s'' 0) scenario_ops))) \<and>
   ids_fresh (empty_graph ''s'' 0) scenario_ops \<and>
   map_keys (thoughts (run (empty_graph ''s'' 0) scenario_ops)) = [''O'', ''H'', ''A'', ''S'', ''C'']"
  using graph_acyclic_closed[OF scenario_ops_fresh] scenario_ops_fresh scenario_ops_keys
  by simp

subsection \<open>Status changes\<close>

lemma markStale_map_get:
  assumes "markStale m a = (m', out)" and "map_get m k = Some t"
  shows "map_get m' k = Some (if k \<in> set out then t\<lparr>status := Stale\<rparr> else t)"
  using markStale_shape(1)[OF assms(1)] assms(2)
  by (simp add: map_get_def stale_upd_def)

lemma markStale_map_get_None:
  assumes "markStale m a = (m', out)" and "map_get m k = None"
  shows "map_get m' k = None"
  using markStale_shape(1)[OF assms(1)] assms(2)
  by (simp add: map_get_def stale_upd_def)

lemma apply_op_status:
  assumes "generated_id op \<notin> set (map_keys (thoughts g))"
    and "map_get (thoughts g) k = Some t"
  shows "\<exists>s. map_get (thoughts (apply_op g op)) k = Some (t\<lparr>status := s\<rparr>) \<and>
           (status t = Stale \<longrightarrow> s = Stale)"
proof -
  have k: "k \<noteq> generated_id op" using assms map_get_key by blast
  have same: "map_get (thoughts g) k = Some (t\<lparr>status := status t\<rparr>)" using assms(2) by simp
  show ?thesis
  proof (cases op)
    case (LogThought input tempNow newId now)
    obtain res g' where r: "handleLogThought g input tempNow newId now = (res, g')"
      by (cases "handleLogThought g input tempNow newId now")
    from handleLogThought_cases[OF r] k same LogThought r
    have "map_get (thoughts (apply_op g op)) k = Some (t\<lparr>status := status t\<rparr>)"
      by (auto simp: map_get_map_set)
    then show ?thesis by blast
  next
    case (InvalidateAssumption input newId now)
    obtain res g' where r: "handleInvalidateAssumption g input newId now = (res, g')"
      by (cases "handleInvalidateAssumption g input newId now")
    from handleInvalidateAssumption_cases[OF r] show ?thesis
    proof (elim disjE exE conjE)
      assume "g' = g"
      with same InvalidateAssumption r
      have "map_get (thoughts (apply_op g op)) k = Some (t\<lparr>status := status t\<rparr>)" by simp
      then show ?thesis by blast
    next
      fix u m' out
      assume ms: "markStale (thoughts g) (thought_id input) = (m', out)"
        and g': "g' = g\<lparr>thoughts := map_set m' newId
              \<lparr>id_of = newId, thought = critique_text (thought u) (reason input),
               thought_type = Critique, dependencies = [thought_id input],
               confidence = None, action_request = None,
               timestamp = now, status = Active\<rparr>\<rparr>"
      from markStale_map_get[OF ms assms(2)] k InvalidateAssumption
      have "map_get (thoughts g') k = Some (if k \<in> set out then t\<lparr>status := Stale\<rparr> else t)"
        unfolding g' by (simp add: map_get_map_set)
      then have "map_get (thoughts g') k =
          Some (t\<lparr>status := (if k \<in> set out then Stale else status t)\<rparr>)"
        by simp
      with InvalidateAssumption r
      have "map_get (thoughts (apply_op g op)) k =
          Some (t\<lparr>status := (if k \<in> set out then Stale else status t)\<rparr>)" by simp
      then show ?thesis by (intro exI[of _ "if k \<in> set out then Stale else status t"]) simp
    qed
  qed
qed

lemma apply_op_new_active:
  assumes "map_get (thoughts g) j = None"
    and "map_get (thoughts (apply_op g op)) j = Some u"
  shows "status u = Active"
proof (cases op)
  case (LogThought input tempNow newId now)
  obtain res g' where r: "handleLogThought g input tempNow newId now = (res, g')"
    by (cases "handleLogThought g input tempNow newId now")
  from handleLogThought_cases[OF r] assms LogThought r show ?thesis
    by (auto simp: map_get_map_set split: if_splits)
next
  case (InvalidateAssumption input newId now)
  obtain res g' where r: "handleInvalidateAssumption g input newId now = (res, g')"
    by (cases "handleInvalidateAssumption g input newId now")
  from handleInvalidateAssumption_cases[OF r] show ?thesis
  proof (elim disjE exE conjE)
    assume "g' = g"
    with assms InvalidateAssumption r show ?thesis by simp
  next
    fix t m' out
    assume ms: "markStale (thoughts g) (thought_id input) = (m', out)"
      and g': "g' = g\<lparr>thoughts := map_set m' newId
              \<lparr>id_of = newId, thought = critique_text (thought t) (reason input),
               thought_type = Critique, dependencies = [thought_id input],
               confidence = None, action_request = None,
               timestamp = now, status = Active\<rparr>\<rparr>"
    from markStale_map_get_None[OF ms assms(1)] assms(2) InvalidateAssumption r
    show ?thesis unfolding g' by (auto simp: map_get_map_set split: if_splits)
  qed
qed

lemma run_status:
  "ids_fresh g ops \<Longrightarrow> map_get (thoughts g) k = Some t \<Longrightarrow>
   \<exists>s. map_get (thoughts (run g ops)) k = Some (t\<lparr>status := s\<rparr>) \<and>
        (status t = Stale \<longrightarrow> s = Stale)"
proof (induction ops arbitrary: g t)
  case Nil
  then have "map_get (thoughts (run g [])) k = Some (t\<lparr>status := status t\<rparr>)" by simp
  then show ?case by blast
next
  case (Cons op ops)
  from Cons.prems have f: "generated_id op \<notin> set (map_keys (thoughts g))"
    and fr: "ids_fresh (apply_op g op) ops" by simp_all
  from apply_op_status[OF f Cons.prems(2)] obtain s1 where
    s1: "map_get (thoughts (apply_op g op)) k = Some (t\<lparr>status := s1\<rparr>)"
      "status t = Stale \<longrightarrow> s1 = Stale" by blast
  from Cons.IH[OF fr s1(1)] obtain s2 where
    s2: "map_get (thoughts (run (apply_op g op) ops)) k = Some (t\<lparr>status := s1, status := s2\<rparr>)"
      "status (t\<lparr>status := s1\<rparr>) = Stale \<longrightarrow> s2 = Stale" by blast
  from s2(1) have "map_get (thoughts (run g (op # ops))) k = Some (t\<lparr>status := s2\<rparr>)" by simp
  moreover from s1(2) s2(2) have "status t = Stale \<longrightarrow> s2 = Stale" by simp
  ultimately show ?case by blast
qed

text \<open>
  C6. Along any sequence of operations (generated ids new), a stored thought keeps
  everything but its status, and a stale thought stays stale. A thought that an operation
  adds to the graph is active.
\<close>

theorem status_monotone:
  assumes "ids_fresh g ops" and "map_get (thoughts g) k = Some t"
  shows "(\<exists>s. map_get (thoughts (run g ops)) k = Some (t\<lparr>status := s\<rparr>) \<and>
            (status t = Stale \<longrightarrow> s = Stale)) \<and>
         (\<forall>op j u. map_get (thoughts (run g ops)) j = None \<and>
            map_get (thoughts (apply_op (run g ops) op)) j = Some u \<longrightarrow> status u = Active)"
  using run_status[OF assms] apply_op_new_active by blast

theorem status_monotone_witness:
  "map_get (thoughts after_invalidation) ''S'' = Some (ex_thought ''S'' Sub_problem [''A''] Stale) \<and>
   ids_fresh after_invalidation later_ops \<and>
   map_get (thoughts (run after_invalidation later_ops)) ''S'' =
     Some (ex_thought ''S'' Sub_problem [''A''] Stale)"
proof -
  have s: "map_get (thoughts after_invalidation) ''S'' =
      Some (ex_thought ''S'' Sub_problem [''A''] Stale)"
    by (simp add: after_invalidation_def scenario_ops_def ex_thought_def eval_defs)
  have f: "ids_fresh after_invalidation later_ops"
    by (simp add: after_invalidation_def scenario_ops_def later_ops_def eval_defs)
  have st: "status (ex_thought ''S'' Sub_problem [''A''] Stale) = Stale"
    by (simp add: ex_thought_def)
  from status_monotone[OF f s] st
  have "map_get (thoughts (run after_invalidation later_ops)) ''S'' =
     Some ((ex_thought ''S'' Sub_problem [''A''] Stale)\<lparr>status := Stale\<rparr>)"
    by blast
  then have "map_get (thoughts (run after_invalidation later_ops)) ''S'' =
     Some (ex_thought ''S'' Sub_problem [''A''] Stale)"
    by (simp add: ex_thought_def)
  with s f show ?thesis by simp
qed

subsection \<open>Critiques and the cascade\<close>

lemma cascade_pred:
  "cascade m x y \<Longrightarrow> y \<noteq> x \<Longrightarrow> \<exists>u. cascade m x u \<and> depends_on m y u"
  by (induction rule: cascade.induct) (auto simp: depends_on_def)

lemma markStale_shielded:
  assumes ms: "markStale m x = (m', out)"
    and x: "map_get m x = Some tx" "thought_type tx = Assumption"
    and sh: "shielded m cid"
  shows "shielded m' cid"
proof -
  from sh obtain c a ta where
    c: "map_get m cid = Some c" "thought_type c = Critique" "status c = Active"
       "dependencies c = [a]" and a: "map_get m a = Some ta" "status ta = Stale"
    unfolding shielded_def by blast
  note shape = markStale_shape(1)[OF ms]
  have na: "\<not> is_active m a" using a by (simp add: is_active_def)
  have "cid \<notin> set out"
  proof
    assume in_out: "cid \<in> set out"
    then have "out \<noteq> []" by auto
    with shape have ax: "is_active m x" by (metis)
    from in_out have "cascade m x cid" using markStale_sound(1)[OF ms] by blast
    moreover have "cid \<noteq> x" using c(1,2) x by auto
    ultimately obtain u where u: "cascade m x u" "depends_on m cid u"
      using cascade_pred by blast
    from u(2) c(1,4) have "u = a" by (simp add: depends_on_def)
    with u(1) cascade_active[of m x a] na have "a = x" by blast
    with ax na show False by simp
  qed
  with markStale_map_get[OF ms c(1)] have c': "map_get m' cid = Some c" by simp
  from markStale_map_get[OF ms a(1)] a(2)
  have "\<exists>ta'. map_get m' a = Some ta' \<and> status ta' = Stale" by auto
  with c' c show ?thesis unfolding shielded_def by blast
qed

lemma shielded_map_set:
  assumes "shielded m cid" and "k \<notin> set (map_keys m)"
  shows "shielded (map_set m k v) cid"
proof -
  from assms(1) obtain c a ta where
    c: "map_get m cid = Some c" "thought_type c = Critique" "status c = Active"
       "dependencies c = [a]" and a: "map_get m a = Some ta" "status ta = Stale"
    unfolding shielded_def by blast
  have "cid \<noteq> k" "a \<noteq> k" using c(1) a(1) assms(2) map_get_key by blast+
  then have "map_get (map_set m k v) cid = Some c" "map_get (map_set m k v) a = Some ta"
    using c(1) a(1) by (simp_all add: map_get_map_set)
  with c a show ?thesis unfolding shielded_def by blast
qed

lemma apply_op_shielded:
  assumes "shielded (thoughts g) cid" and "generated_id op \<notin> set (map_keys (thoughts g))"
  shows "shielded (thoughts (apply_op g op)) cid"
proof (cases op)
  case (LogThought input tempNow newId now)
  obtain res g' where r: "handleLogThought g input tempNow newId now = (res, g')"
    by (cases "handleLogThought g input tempNow newId now")
  from handleLogThought_cases[OF r] assms LogThought r show ?thesis
    by (auto simp: shielded_map_set)
next
  case (InvalidateAssumption input newId now)
  obtain res g' where r: "handleInvalidateAssumption g input newId now = (res, g')"
    by (cases "handleInvalidateAssumption g input newId now")
  from handleInvalidateAssumption_cases[OF r] show ?thesis
  proof (elim disjE exE conjE)
    assume "g' = g"
    with assms InvalidateAssumption r show ?thesis by simp
  next
    fix t m' out
    assume t: "map_get (thoughts g) (thought_id input) = Some t" "thought_type t = Assumption"
      and ms: "markStale (thoughts g) (thought_id input) = (m', out)"
      and g': "g' = g\<lparr>thoughts := map_set m' newId
              \<lparr>id_of = newId, thought = critique_text (thought t) (reason input),
               thought_type = Critique, dependencies = [thought_id input],
               confidence = None, action_request = None,
               timestamp = now, status = Active\<rparr>\<rparr>"
    have "shielded m' cid" using ms t assms(1) by (rule markStale_shielded)
    moreover have "newId \<notin> set (map_keys m')"
      using markStale_shape(1)[OF ms] assms(2) InvalidateAssumption by simp
    ultimately have "shielded (thoughts g') cid" unfolding g' by (simp add: shielded_map_set)
    with InvalidateAssumption r show ?thesis by simp
  qed
qed

lemma run_shielded:
  "shielded (thoughts g) cid \<Longrightarrow> ids_fresh g ops \<Longrightarrow> shielded (thoughts (run g ops)) cid"
  by (induction ops arbitrary: g) (auto intro: apply_op_shielded)

lemma handleInvalidateAssumption_Inr:
  "handleInvalidateAssumption g input newId now = (Inr r, g') \<Longrightarrow>
     \<exists>t m' out. map_get (thoughts g) (thought_id input) = Some t \<and>
        thought_type t = Assumption \<and>
        markStale (thoughts g) (thought_id input) = (m', out) \<and>
        r = \<lparr>invalidated_thoughts = out, critique_id = newId\<rparr> \<and>
        g' = g\<lparr>thoughts := map_set m' newId
              \<lparr>id_of = newId, thought = critique_text (thought t) (reason input),
               thought_type = Critique, dependencies = [thought_id input],
               confidence = None, action_request = None,
               timestamp = now, status = Active\<rparr>\<rparr>"
  by (auto simp: handleInvalidateAssumption_def Let_def split: option.splits if_splits prod.splits)

lemma invalidate_shielded:
  assumes "newId \<notin> set (map_keys (thoughts g))"
    and "handleInvalidateAssumption g input newId now = (Inr r, g1)"
  shows "critique_id r = newId \<and> shielded (thoughts g1) newId"
proof -
  from handleInvalidateAssumption_Inr[OF assms(2)] obtain t m' out where
    t: "map_get (thoughts g) (thought_id input) = Some t"
      and ms: "markStale (thoughts g) (thought_id input) = (m', out)"
      and r: "r = \<lparr>invalidated_thoughts = out, critique_id = newId\<rparr>"
      and g1: "g1 = g\<lparr>thoughts := map_set m' newId
              \<lparr>id_of = newId, thought = critique_text (thought t) (reason input),
               thought_type = Critique, dependencies = [thought_id input],
               confidence = None, action_request = None,
               timestamp = now, status = Active\<rparr>\<rparr>"
    by blast
  note shape = markStale_shape(1)[OF ms]
  have ne: "thought_id input \<noteq> newId" using t assms(1) map_get_key by blast
  have "\<exists>ta. map_get m' (thought_id input) = Some ta \<and> status ta = Stale"
  proof (cases "status t")
    case Active
    then have "is_active (thoughts g) (thought_id input)" using t by (simp add: is_active_def)
    with shape have "thought_id input \<in> set out" by (metis list.set_intros(1))
    with markStale_map_get[OF ms t] show ?thesis by simp
  next
    case Stale
    with markStale_map_get[OF ms t] show ?thesis by auto
  qed
  then have "shielded (thoughts g1) newId"
    unfolding g1 shielded_def using ne by (simp add: map_get_map_set)
  with r show ?thesis by simp
qed

text \<open>
  C4 (as amended). The critique that an invalidation appends is never staled by a later
  operation: it stays in the graph, of type critique and active. A critique inserted
  through log_thought with dependencies is staled by the cascade like any other thought.
\<close>

theorem appended_critique_stays_active:
  assumes "newId \<notin> set (map_keys (thoughts g))"
    and "handleInvalidateAssumption g input newId now = (Inr r, g1)"
    and "ids_fresh g1 ops"
  shows "\<exists>c. map_get (thoughts (run g1 ops)) (critique_id r) = Some c \<and>
              thought_type c = Critique \<and> status c = Active"
proof -
  from invalidate_shielded[OF assms(1,2)]
  have eq: "critique_id r = newId" and sh: "shielded (thoughts g1) newId" by simp_all
  from run_shielded[OF sh assms(3)] have "shielded (thoughts (run g1 ops)) newId" .
  then show ?thesis unfolding shielded_def eq by blast
qed

theorem appended_critique_stays_active_witness:
  "''C'' \<notin> set (map_keys (thoughts before_invalidation)) \<and>
   handleInvalidateAssumption before_invalidation \<lparr>thought_id = ''A'', reason = ''R''\<rparr> ''C'' 0 =
     (Inr \<lparr>invalidated_thoughts = [''A'', ''S''], critique_id = ''C''\<rparr>, after_invalidation) \<and>
   ids_fresh after_invalidation later_ops \<and>
   (\<exists>c. map_get (thoughts (run after_invalidation later_ops)) ''C'' = Some c \<and>
        thought_type c = Critique \<and> status c = Active)"
proof -
  have a: "''C'' \<notin> set (map_keys (thoughts before_invalidation))"
    by (simp add: before_invalidation_def scenario_ops_def eval_defs)
  have b: "handleInvalidateAssumption before_invalidation
      \<lparr>thought_id = ''A'', reason = ''R''\<rparr> ''C'' 0 =
     (Inr \<lparr>invalidated_thoughts = [''A'', ''S''], critique_id = ''C''\<rparr>, after_invalidation)"
    by (simp add: before_invalidation_def after_invalidation_def scenario_ops_def eval_defs)
  have f: "ids_fresh after_invalidation later_ops"
    by (simp add: after_invalidation_def scenario_ops_def later_ops_def eval_defs)
  from appended_critique_stays_active[OF a b f] a b f show ?thesis by simp
qed

theorem logged_critique_staled:
  "ids_fresh (empty_graph ''s'' 0) logged_critique_ops \<and>
   map_get (thoughts (run (empty_graph ''s'' 0) (butlast logged_critique_ops))) ''K'' =
     Some (ex_thought ''K'' Critique [''A''] Active) \<and>
   map_get (thoughts (run (empty_graph ''s'' 0) logged_critique_ops)) ''K'' =
     Some (ex_thought ''K'' Critique [''A''] Stale)"
  by (simp add: logged_critique_ops_def ex_thought_def eval_defs)

section \<open>The token bucket\<close>



lemma checkLimit_remaining:
  "remaining (fst (checkLimit b c cost refillNow now)) =
     \<lfloor>tokens (snd (checkLimit b c cost refillNow now))\<rfloor>"
  by (simp add: checkLimit_def Let_def)






lemmas bucket_defs =
  ex_bucket_def new_TokenBucketRateLimiter_def checkLimit_def refillTokens_def refilled_def
  elapsedSeconds_def window_key_def window_expired_def Let_def


subsection \<open>The client id\<close>

lemma map_update_values:
  "map (\<lambda>(n, l). (n, f l)) (AList.update k v xs) =
     AList.update k (f v) (map (\<lambda>(n, l). (n, f l)) xs)"
  by (induction xs) auto

text \<open>
  C10. The client id of a call is used for the key of the request counter and for
  nothing else: two calls that differ in the client id only return the same result and
  leave the same bucket, request counter apart. The same holds through the manager, which
  keeps one bucket per limiter name.
\<close>

theorem admission_ignores_client:
  "fst (checkLimit b c1 cost refillNow now) = fst (checkLimit b c2 cost refillNow now) \<and>
   (snd (checkLimit b c1 cost refillNow now))\<lparr>requestCount := []\<rparr> =
     (snd (checkLimit b c2 cost refillNow now))\<lparr>requestCount := []\<rparr> \<and>
   fst (manager_checkLimit mgr name c1 cost createNow refillNow now) =
     fst (manager_checkLimit mgr name c2 cost createNow refillNow now) \<and>
   map (\<lambda>(n, l). (n, l\<lparr>requestCount := []\<rparr>))
       (limiters (snd (manager_checkLimit mgr name c1 cost createNow refillNow now))) =
     map (\<lambda>(n, l). (n, l\<lparr>requestCount := []\<rparr>))
       (limiters (snd (manager_checkLimit mgr name c2 cost createNow refillNow now)))"
proof -
  have bucket: "fst (checkLimit l c1 cost refillNow now) = fst (checkLimit l c2 cost refillNow now)"
    "(snd (checkLimit l c1 cost refillNow now))\<lparr>requestCount := []\<rparr> =
       (snd (checkLimit l c2 cost refillNow now))\<lparr>requestCount := []\<rparr>" for l
    by (simp_all add: checkLimit_def refillTokens_def Let_def)
  show ?thesis
    by (simp add: manager_checkLimit_def Let_def case_prod_beta map_update_values bucket
             split: option.splits)
qed

theorem admission_ignores_client_witness:
  "fst (checkLimit ex_bucket ''alice'' 1 1000 1000) = fst (checkLimit ex_bucket ''bob'' 1 1000 1000) \<and>
   tokens (snd (checkLimit ex_bucket ''alice'' 1 1000 1000)) = 2 \<and>
   tokens (snd (checkLimit ex_bucket ''bob'' 1 1000 1000)) = 2 \<and>
   requestCount (snd (checkLimit ex_bucket ''alice'' 1 1000 1000)) = [(''alice:0'', 1)] \<and>
   requestCount (snd (checkLimit ex_bucket ''bob'' 1 1000 1000)) = [(''bob:0'', 1)]"
proof -
  have "tokens (snd (checkLimit ex_bucket ''alice'' 1 1000 1000)) = 2"
    "tokens (snd (checkLimit ex_bucket ''bob'' 1 1000 1000)) = 2"
    "requestCount (snd (checkLimit ex_bucket ''alice'' 1 1000 1000)) = [(''alice:0'', 1)]"
    "requestCount (snd (checkLimit ex_bucket ''bob'' 1 1000 1000)) = [(''bob:0'', 1)]"
    by (simp_all add: bucket_defs number_to_string_def digits_of_nat.simps digit_char_def)
  with admission_ignores_client[of ex_bucket "''alice''" 1 1000 1000 "''bob''"]
  show ?thesis by simp
qed

subsection \<open>Window keys\<close>

lemma parseInt_decimal: "parseInt (Some ''28833'') = Some 28833"
  by (simp add: parseInt_def is_space_def is_digit_def digit_value_def digits_value_def Let_def)

lemma parseInt_signed_hex: "parseInt (Some '' -0x1F'') = Some (-31)"
  by (simp add: parseInt_def is_space_def is_digit_def digit_value_def digits_value_def Let_def)

lemma split_on_window_key: "split_on CHR '':'' ''default:28833'' = [''default'', ''28833'']"
  by simp

section \<open>Queries\<close>

lemma length_insert_by [simp]: "length (insert_by cmp x ys) = Suc (length ys)"
  by (induction ys) auto

lemma length_js_sort [simp]: "length (js_sort cmp xs) = length xs"
  unfolding js_sort_def by (induction xs) auto


lemma slice_Nil [simp]: "slice [] start stop = []"
  by (simp add: slice_def Let_def)

lemma filter_thoughts_unknown_dependency_of:
  assumes "dependency_of_q input = Some d" and "d \<noteq> []" and "\<not> map_has (thoughts g) d"
  shows "filter_thoughts ops g input = []"
  using assms by (simp add: filter_thoughts_def truthy_def Let_def map_has_def map_get_def)

lemma js_sort_Nil [simp]: "js_sort cmp [] = []"
  by (simp add: js_sort_def)


lemmas query_defs =
  default_query_def filter_thoughts_def truthy_def map_values_def map_get_def
  scenario_A_def ex_graph_def ex_thought_def Let_def


text \<open>
  C9 (as amended). A query whose \<open>dependency_of\<close> is a non-empty string that is not an id
  of the graph matches nothing, whatever its other filters: the total is 0 and the page is
  empty. An empty string is falsy in the source, and the filter is then skipped.
\<close>

theorem query_unknown_dependency_of:
  assumes "dependency_of_q input = Some d" and "d \<noteq> []" and "\<not> map_has (thoughts g) d"
  shows "total_results (handleQueryThoughts ops g input) = 0 \<and>
         returned_count (handleQueryThoughts ops g input) = 0 \<and>
         thoughts_out (handleQueryThoughts ops g input) = []"
  using filter_thoughts_unknown_dependency_of[OF assms]
  by (simp add: handleQueryThoughts_def Let_def sort_thoughts_def)

theorem query_unknown_dependency_of_witness:
  "\<not> map_has (thoughts scenario_A) ''X'' \<and>
   total_results (handleQueryThoughts ascii_ops scenario_A
      (default_query\<lparr>dependency_of_q := Some ''X''\<rparr>)) = 0 \<and>
   thoughts_out (handleQueryThoughts ascii_ops scenario_A
      (default_query\<lparr>dependency_of_q := Some ''X''\<rparr>)) = []"
proof -
  have a: "dependency_of_q (default_query\<lparr>dependency_of_q := Some ''X''\<rparr>) = Some ''X''"
    "''X'' \<noteq> []" "\<not> map_has (thoughts scenario_A) ''X''"
    by (simp_all add: map_has_def query_defs)
  from query_unknown_dependency_of[OF a] a(3) show ?thesis by simp
qed

theorem query_empty_dependency_of:
  "\<not> map_has (thoughts scenario_A) [] \<and>
   total_results (handleQueryThoughts ascii_ops scenario_A
      (default_query\<lparr>dependency_of_q := Some []\<rparr>)) = 4 \<and>
   returned_count (handleQueryThoughts ascii_ops scenario_A
      (default_query\<lparr>dependency_of_q := Some []\<rparr>)) = 4"
  by (simp add: map_has_def query_defs handleQueryThoughts_def sort_thoughts_def js_sort_def
      slice_def relative_index_def to_integer_def)

end
